theory Spec2Isabelle
  imports Complex_Main "HOL-Library.AList"
begin

section \<open>Values exchanged with the outside\<close>

text \<open>
  The daemon (\<^verbatim>\<open>roborock_daemon.py\<close>) receives JSON documents over HTTP and talks to the
  devices through the python-roborock library. JSON values are a datatype; floating-point
  numbers do not occur in anything modelled here.
\<close>

datatype json =
    JNull
  | JBool bool
  | JNum int
  | JStr string
  | JArr "json list"
  | JObj "(string \<times> json) list"

type_synonym bytes = string

text \<open>
  A Python exception is kept as its class, as far as the \<^verbatim>\<open>except\<close> clauses of the
  source tell classes apart, together with \<^verbatim>\<open>str(e)\<close>.
\<close>

datatype exn =
    RoborockException string
  | TimeoutError string
  | OtherException string

fun str_exn :: "exn \<Rightarrow> string" where
  "str_exn (RoborockException s) = s"
| "str_exn (TimeoutError s) = s"
| "str_exn (OtherException s) = s"

text \<open>
  The dictionaries every handler returns: \<^verbatim>\<open>{"success": True}\<close>,
  \<^verbatim>\<open>{"success": True, "result": r}\<close> and \<^verbatim>\<open>{"success": False, "error": s}\<close>.
\<close>

datatype reply =
    Reply_ok
  | Reply_result json
  | Reply_error string

text \<open>The library's credential objects, with the fields in the order the source passes them.\<close>

datatype reference = Reference (ref_a: json) (ref_m: json) (ref_l: json)

datatype rriot = RRiot (rriot_u: json) (rriot_s: json) (rriot_h: json) (rriot_k: json)
  (rriot_r: reference)

datatype mqtt_params = MqttParams (username: string)

datatype protocol = RPC_REQUEST | RPC_RESPONSE | Other_protocol nat

datatype message = RoborockMessage (protocol: protocol) (payload: bytes)

text \<open>
  A decoded reply: \<^verbatim>\<open>api_error\<close> is \<^verbatim>\<open>None\<close> or an error object (always truthy), kept
  as its \<^verbatim>\<open>str\<close>.
\<close>

datatype response = ResponseMessage (api_error: "string option") (data: json)

text \<open>
  The collaborators that are not part of the repository are parameters of the model: the
  library's codec functions, each of which may raise, and the two Python built-ins that
  render a value as text (\<^verbatim>\<open>format\<close> inside an f-string, and \<^verbatim>\<open>repr\<close> of a string, which
  is what \<^verbatim>\<open>str\<close> of a \<^verbatim>\<open>KeyError\<close> shows). \<open>encode\<close> stands for lines 174-180 of
  \<^verbatim>\<open>send_command\<close>: \<^verbatim>\<open>create_security_data\<close>, \<^verbatim>\<open>RequestMessage(...).encode_message\<close> and
  \<^verbatim>\<open>MessageParser.build\<close>, applied to the credentials, the command, its parameters and the
  local key.
\<close>

record ext =
  create_mqtt_params :: "rriot \<Rightarrow> exn + mqtt_params"
  parse :: "bytes \<Rightarrow> string \<Rightarrow> exn + message list"
  decode_rpc_response :: "message \<Rightarrow> exn + response"
  encode :: "rriot \<Rightarrow> string \<Rightarrow> json list \<Rightarrow> string \<Rightarrow> exn + bytes"
  format_json :: "json \<Rightarrow> string"
  repr_str :: "string \<Rightarrow> string"

section \<open>Request identifiers\<close>

text \<open>
  \<^verbatim>\<open>request_id = f"{user_id}:{device_id}:{self.request_counter}"\<close>. The counter is a
  Python integer that starts at 0 and is only ever incremented, so it is a natural number
  with no upper bound; \<open>str_nat\<close> is its decimal rendering.
\<close>

definition digit_char :: "nat \<Rightarrow> char" where
  "digit_char d = char_of (48 + d)"

function str_nat :: "nat \<Rightarrow> string" where
  "str_nat n = (if n < 10 then [digit_char n] else str_nat (n div 10) @ [digit_char (n mod 10)])"
  by pat_completeness auto
termination
  by (relation "measure id") auto

declare str_nat.simps [simp del]

definition make_request_id :: "string \<Rightarrow> string \<Rightarrow> nat \<Rightarrow> string" where
  "make_request_id user_id device_id n = user_id @ '':'' @ device_id @ '':'' @ str_nat n"

section \<open>The daemon, the event loop and the transport\<close>

text \<open>
  The closure \<^verbatim>\<open>on_message\<close> built by \<^verbatim>\<open>send_command\<close> captures \<^verbatim>\<open>request_id\<close> and
  \<^verbatim>\<open>local_key\<close> (and the daemon itself); a handler is that pair.
\<close>

datatype handler = On_message (handler_request_id: string) (handler_local_key: string)

text \<open>
  An \<^verbatim>\<open>asyncio.Future\<close>: pending, or done with a result, with an exception, or cancelled.
\<close>

datatype future = Pending | Result response | Raised exn | Cancelled

fun fut_done :: "future \<Rightarrow> bool" where
  "fut_done Pending = False"
| "fut_done _ = True"

text \<open>
  The transport is seen through the calls made on it and through the handlers it holds.
  A session object and an unsubscribe callable are each identified by a number given out
  when the object is created.
\<close>

datatype call =
    Start nat
  | Subscribe nat string handler
  | Unsubscribe nat
  | Publish nat string bytes
  | Close nat

record live_sub =
  sub_token :: nat
  sub_session :: nat
  sub_topic :: string
  sub_handler :: handler

text \<open>The local variables of one invocation of \<^verbatim>\<open>send_command\<close>.\<close>

record locals =
  l_user_id :: string
  l_device_id :: string
  l_local_key :: string
  l_command :: string
  l_params :: "json list option"
  l_session :: nat
  l_rriot :: rriot
  l_mqtt_params :: mqtt_params
  l_request_id :: string
  l_response_future :: nat

text \<open>
  \<^verbatim>\<open>send_command\<close> is a coroutine: it runs without interruption from one \<^verbatim>\<open>await\<close> to
  the next, and other coroutines and transport callbacks run while it is suspended. A
  frame says where an invocation is suspended:
  \<^item> \<open>Await_subscribe v first\<close>: in \<^verbatim>\<open>session.subscribe\<close>, line 163 (\<open>first\<close>) or line 170;
  \<^item> \<open>Await_publish v\<close>: in \<^verbatim>\<open>session.publish\<close>, line 183;
  \<^item> \<open>Await_response v t\<close>: in \<^verbatim>\<open>asyncio.wait_for\<close>, line 189, which expires at time \<open>t\<close>;
  \<^item> \<open>Timed_out v\<close>: \<^verbatim>\<open>wait_for\<close> has cancelled the future and the coroutine is scheduled
    to resume with \<^verbatim>\<open>TimeoutError\<close>, line 193;
  \<^item> \<open>Returned r\<close>: the invocation returned \<open>r\<close>;
  \<^item> \<open>Aborted\<close>: a \<^verbatim>\<open>CancelledError\<close>, which no clause of the source catches, left the
    invocation.
\<close>

datatype frame =
    Await_subscribe locals bool
  | Await_publish locals
  | Await_response locals real
  | Timed_out locals
  | Returned reply
  | Aborted

text \<open>
  The state: the five attributes of \<^verbatim>\<open>RoborockDaemon\<close> (the lock apart), then the futures
  (a store from references to states), the transport's handlers and the calls made on
  it, the clock, and the invocations of \<^verbatim>\<open>send_command\<close> in flight. The dictionaries that
  the source iterates over are association lists in insertion order.
\<close>

record world =
  sessions :: "(string \<times> nat) list"
  rriot_data :: "string \<rightharpoonup> rriot"
  subscriptions :: "(string \<times> (string \<times> nat) list) list"
  pending_responses :: "string \<rightharpoonup> nat"
  request_counter :: nat
  futures :: "nat \<Rightarrow> future"
  next_future :: nat
  next_session :: nat
  next_token :: nat
  live :: "live_sub list"
  calls :: "call list"
  now :: real
  tasks :: "nat \<rightharpoonup> frame"

text \<open>\<^verbatim>\<open>daemon = RoborockDaemon()\<close> in a fresh process.\<close>

definition init_world :: world where
  "init_world = \<lparr> sessions = [], rriot_data = Map.empty, subscriptions = [],
     pending_responses = Map.empty, request_counter = 0, futures = (\<lambda>_. Pending),
     next_future = 0, next_session = 0, next_token = 0, live = [], calls = [], now = 0,
     tasks = Map.empty \<rparr>"

subsection \<open>Transport operations\<close>

text \<open>Calling an unsubscribe callable removes its handler from the transport.\<close>

definition unsubscribe :: "nat \<Rightarrow> world \<Rightarrow> world" where
  "unsubscribe tok w =
     w\<lparr> live := filter (\<lambda>s. sub_token s \<noteq> tok) (live w), calls := calls w @ [Unsubscribe tok] \<rparr>"

text \<open>
  \<^verbatim>\<open>await session.close()\<close>, which may raise; a close that succeeds ends every handler of
  the session.
\<close>

definition close_transport :: "nat \<Rightarrow> exn option \<Rightarrow> world \<Rightarrow> world" where
  "close_transport session outcome w =
     w\<lparr> calls := calls w @ [Close session],
        live := (case outcome of
                   None \<Rightarrow> filter (\<lambda>s. sub_session s \<noteq> session) (live w)
                 | Some e \<Rightarrow> live w) \<rparr>"

section \<open>Session registry\<close>

text \<open>
  Subscripting a JSON value with a string key, as \<^verbatim>\<open>rriot_data["r"]["a"]\<close> does: a
  \<^verbatim>\<open>KeyError\<close> for a dictionary without the key, a \<^verbatim>\<open>TypeError\<close> for any other value
  (its message is given without the quotation marks Python puts around type names).
\<close>

fun subscript :: "ext \<Rightarrow> json \<Rightarrow> string \<Rightarrow> exn + json" where
  "subscript x (JObj kvs) k =
     (case map_of kvs k of None \<Rightarrow> Inl (OtherException (repr_str x k)) | Some v \<Rightarrow> Inr v)"
| "subscript x (JArr vs) k =
     Inl (OtherException ''list indices must be integers or slices, not str'')"
| "subscript x (JStr s) k = Inl (OtherException ''string indices must be integers'')"
| "subscript x (JNum n) k = Inl (OtherException ''int object is not subscriptable'')"
| "subscript x (JBool b) k = Inl (OtherException ''bool object is not subscriptable'')"
| "subscript x JNull k = Inl (OtherException ''NoneType object is not subscriptable'')"

text \<open>\<^verbatim>\<open>d.get(k)\<close> on a dictionary: \<^verbatim>\<open>None\<close> when the key is missing.\<close>

definition dict_get :: "(string \<times> json) list \<Rightarrow> string \<Rightarrow> json" where
  "dict_get kvs k = (case map_of kvs k of None \<Rightarrow> JNull | Some v \<Rightarrow> v)"

text \<open>
  \<^verbatim>\<open>_create_rriot\<close>: the argument is a dictionary (the \<^verbatim>\<open>/init\<close> handler passes the
  \<^verbatim>\<open>rriot\<close> member of the request). The subscripts are evaluated in the order of the
  source; \<^verbatim>\<open>.get\<close> is reached only after \<^verbatim>\<open>rriot_data["r"]["a"]\<close> succeeded, that is on a
  dictionary.
\<close>

definition create_rriot :: "ext \<Rightarrow> json \<Rightarrow> exn + rriot" where
  "create_rriot x rriot_dict =
     (case subscript x rriot_dict ''r'' of Inl e \<Rightarrow> Inl e | Inr r \<Rightarrow>
      (case subscript x r ''a'' of Inl e \<Rightarrow> Inl e | Inr a \<Rightarrow>
       (case r of
          JObj kvs \<Rightarrow>
            (let ref = Reference a (dict_get kvs ''m'') (dict_get kvs ''l'') in
             (case subscript x rriot_dict ''u'' of Inl e \<Rightarrow> Inl e | Inr u \<Rightarrow>
              (case subscript x rriot_dict ''s'' of Inl e \<Rightarrow> Inl e | Inr s \<Rightarrow>
               (case subscript x rriot_dict ''h'' of Inl e \<Rightarrow> Inl e | Inr h \<Rightarrow>
                (case subscript x rriot_dict ''k'' of Inl e \<Rightarrow> Inl e | Inr k \<Rightarrow>
                   Inr (RRiot u s h k ref))))))
        | _ \<Rightarrow> Inl (OtherException ''object has no attribute get''))))"

text \<open>
  \<^verbatim>\<open>_close_session\<close>. The callables stored in \<^verbatim>\<open>subscriptions\<close> all come from
  \<^verbatim>\<open>session.subscribe\<close>, so \<^verbatim>\<open>callable(unsubscribe)\<close> holds for each. An exception of
  \<^verbatim>\<open>close()\<close> is logged and the session is deleted all the same.
\<close>

definition close_session :: "string \<Rightarrow> exn option \<Rightarrow> world \<Rightarrow> world" where
  "close_session user_id close_outcome w =
     (let w1 = (case map_of (subscriptions w) user_id of
                  None \<Rightarrow> w
                | Some subs \<Rightarrow>
                    (fold unsubscribe (map snd subs) w)
                      \<lparr> subscriptions := AList.delete user_id (subscriptions w) \<rparr>);
          w2 = (case map_of (sessions w1) user_id of
                  None \<Rightarrow> w1
                | Some session \<Rightarrow>
                    (close_transport session close_outcome w1)
                      \<lparr> sessions := AList.delete user_id (sessions w1) \<rparr>)
      in w2\<lparr> rriot_data := (rriot_data w2)(user_id := None) \<rparr>)"

text \<open>
  \<^verbatim>\<open>initialize\<close>, run under the daemon's lock. \<open>close_outcome\<close> and \<open>start_outcome\<close> are
  what \<^verbatim>\<open>close()\<close> of the old session and \<^verbatim>\<open>start()\<close> of the new one do (\<open>None\<close>: return
  normally).
\<close>

definition initialize ::
  "ext \<Rightarrow> string \<Rightarrow> json \<Rightarrow> exn option \<Rightarrow> exn option \<Rightarrow> world \<Rightarrow> reply \<times> world" where
  "initialize x user_id rriot_data_arg close_outcome start_outcome w =
     (let w1 = (if map_of (sessions w) user_id \<noteq> None
                then close_session user_id close_outcome w else w)
      in case create_rriot x rriot_data_arg of
           Inl e \<Rightarrow> (Reply_error (str_exn e), w1)
         | Inr rriot \<Rightarrow>
            (case create_mqtt_params x rriot of
               Inl e \<Rightarrow> (Reply_error (str_exn e), w1)
             | Inr mqtt_params \<Rightarrow>
                (let session = next_session w1;
                     w2 = w1\<lparr> next_session := session + 1, calls := calls w1 @ [Start session] \<rparr>
                 in case start_outcome of
                      Some e \<Rightarrow> (Reply_error (str_exn e), w2)
                    | None \<Rightarrow>
                        (Reply_ok,
                         w2\<lparr> sessions := AList.update user_id session (sessions w2),
                             rriot_data := (rriot_data w2)(user_id \<mapsto> rriot),
                             subscriptions := AList.update user_id [] (subscriptions w2) \<rparr>))))"

text \<open>
  \<^verbatim>\<open>shutdown\<close>: the users are listed first, then each session is closed in that order.
\<close>

definition shutdown :: "(string \<Rightarrow> exn option) \<Rightarrow> world \<Rightarrow> world" where
  "shutdown close_outcomes w =
     fold (\<lambda>user_id. close_session user_id (close_outcomes user_id)) (map fst (sessions w)) w"

section \<open>Request correlator\<close>

subsection \<open>The inbound handler\<close>

text \<open>
  Both branches of \<^verbatim>\<open>on_message\<close> end in the same four lines (149-152 and 155-158):
  if \<^verbatim>\<open>request_id\<close> is in \<^verbatim>\<open>pending_responses\<close>, pop its future, and set the future
  unless it is done.
\<close>

definition pop_and_set :: "string \<Rightarrow> future \<Rightarrow> world \<Rightarrow> world" where
  "pop_and_set request_id outcome w =
     (case pending_responses w request_id of
        None \<Rightarrow> w
      | Some fut \<Rightarrow>
          w\<lparr> pending_responses := (pending_responses w)(request_id := None),
             futures := (if fut_done (futures w fut) then futures w
                         else (futures w)(fut := outcome)) \<rparr>)"

text \<open>
  The loop over the parsed messages (lines 146-152). An exception of
  \<^verbatim>\<open>decode_rpc_response\<close> leaves the loop for the \<^verbatim>\<open>except\<close> branch (lines 153-158).
\<close>

fun handle_messages :: "ext \<Rightarrow> string \<Rightarrow> message list \<Rightarrow> world \<Rightarrow> world" where
  "handle_messages x request_id [] w = w"
| "handle_messages x request_id (msg # msgs) w =
     (if protocol msg = RPC_RESPONSE then
        (case decode_rpc_response x msg of
           Inl e \<Rightarrow> pop_and_set request_id (Raised e) w
         | Inr response \<Rightarrow>
             handle_messages x request_id msgs (pop_and_set request_id (Result response) w))
      else handle_messages x request_id msgs w)"

fun on_message :: "ext \<Rightarrow> handler \<Rightarrow> bytes \<Rightarrow> world \<Rightarrow> world" where
  "on_message x (On_message request_id local_key) data_arg w =
     (case parse x data_arg local_key of
        Inl e \<Rightarrow> pop_and_set request_id (Raised e) w
      | Inr messages \<Rightarrow> handle_messages x request_id messages w)"

text \<open>The transport calls the handler registered under a token, if it is still registered.\<close>

definition deliver :: "ext \<Rightarrow> nat \<Rightarrow> bytes \<Rightarrow> world \<Rightarrow> world" where
  "deliver x tok data_arg w =
     (case find (\<lambda>s. sub_token s = tok) (live w) of
        None \<Rightarrow> w
      | Some s \<Rightarrow> on_message x (sub_handler s) data_arg w)"

subsection \<open>\<^verbatim>\<open>send_command\<close>, from one suspension to the next\<close>

definition return_task :: "nat \<Rightarrow> reply \<Rightarrow> world \<Rightarrow> world" where
  "return_task tid r w = w\<lparr> tasks := (tasks w)(tid \<mapsto> Returned r) \<rparr>"

text \<open>The two outer \<^verbatim>\<open>except\<close> clauses, lines 197-201.\<close>

fun except_reply :: "exn \<Rightarrow> reply" where
  "except_reply (RoborockException s) = Reply_error s"
| "except_reply e = Reply_error (''Unexpected error: '' @ str_exn e)"

definition subscribe_topic :: "ext \<Rightarrow> rriot \<Rightarrow> mqtt_params \<Rightarrow> string \<Rightarrow> string" where
  "subscribe_topic x rriot mqtt_params device_id =
     ''rr/m/o/'' @ format_json x (rriot_u rriot) @ ''/'' @ username mqtt_params @ ''/'' @ device_id"

definition publish_topic :: "ext \<Rightarrow> rriot \<Rightarrow> mqtt_params \<Rightarrow> string \<Rightarrow> string" where
  "publish_topic x rriot mqtt_params device_id =
     ''rr/m/i/'' @ format_json x (rriot_u rriot) @ ''/'' @ username mqtt_params @ ''/'' @ device_id"

text \<open>\<^verbatim>\<open>self.subscriptions.get(user_id, {})\<close>.\<close>

definition subscriptions_of :: "world \<Rightarrow> string \<Rightarrow> (string \<times> nat) list" where
  "subscriptions_of w user_id =
     (case map_of (subscriptions w) user_id of None \<Rightarrow> [] | Some subs \<Rightarrow> subs)"

text \<open>
  Lines 127-163 or 127-170: from the call to the first \<^verbatim>\<open>await\<close>. Session and credential
  objects are truthy, so the guard of line 130 fails exactly when a lookup gave \<^verbatim>\<open>None\<close>.
\<close>

definition send_command_begin ::
  "ext \<Rightarrow> nat \<Rightarrow> string \<Rightarrow> string \<Rightarrow> string \<Rightarrow> string \<Rightarrow> json list option \<Rightarrow> world \<Rightarrow> world" where
  "send_command_begin x tid user_id device_id local_key command params w =
     (case (map_of (sessions w) user_id, rriot_data w user_id) of
        (Some session, Some rriot) \<Rightarrow>
          (case create_mqtt_params x rriot of
             Inl e \<Rightarrow> return_task tid (except_reply e) w
           | Inr mqtt_params \<Rightarrow>
              (let n = request_counter w + 1;
                   request_id = make_request_id user_id device_id n;
                   response_future = next_future w;
                   w1 = w\<lparr> request_counter := n,
                          futures := (futures w)(response_future := Pending),
                          next_future := response_future + 1,
                          pending_responses := (pending_responses w)(request_id \<mapsto> response_future) \<rparr>;
                   v = \<lparr> l_user_id = user_id, l_device_id = device_id, l_local_key = local_key,
                         l_command = command, l_params = params, l_session = session,
                         l_rriot = rriot, l_mqtt_params = mqtt_params,
                         l_request_id = request_id, l_response_future = response_future \<rparr>;
                   subscribing = Subscribe session (subscribe_topic x rriot mqtt_params device_id)
                                   (On_message request_id local_key)
               in case map_of (subscriptions_of w1 user_id) device_id of
                    None \<Rightarrow>
                      w1\<lparr> calls := calls w1 @ [subscribing],
                          tasks := (tasks w1)(tid \<mapsto> Await_subscribe v True) \<rparr>
                  | Some old_unsub \<Rightarrow>
                      (let w2 = unsubscribe old_unsub w1
                       in w2\<lparr> calls := calls w2 @ [subscribing],
                              tasks := (tasks w2)(tid \<mapsto> Await_subscribe v False) \<rparr>)))
      | _ \<Rightarrow> return_task tid (Reply_error ''Session not initialized. Call /init first.'') w)"

text \<open>
  Storing the unsubscribe callable: line 164 creates the user's dictionary when it is
  missing (\<^verbatim>\<open>setdefault\<close>), line 171 raises \<^verbatim>\<open>KeyError(user_id)\<close> then.
\<close>

definition store_unsubscribe :: "ext \<Rightarrow> bool \<Rightarrow> string \<Rightarrow> string \<Rightarrow> nat \<Rightarrow> world \<Rightarrow> exn + world" where
  "store_unsubscribe x first user_id device_id unsub w =
     (case map_of (subscriptions w) user_id of
        None \<Rightarrow>
          (if first
           then Inr (w\<lparr> subscriptions := AList.update user_id [(device_id, unsub)] (subscriptions w) \<rparr>)
           else Inl (OtherException (repr_str x user_id)))
      | Some subs \<Rightarrow>
          Inr (w\<lparr> subscriptions :=
                   AList.update user_id (AList.update device_id unsub subs) (subscriptions w) \<rparr>))"

text \<open>
  \<^verbatim>\<open>session.subscribe\<close> returns (lines 163-183) or raises. When it returns, the transport
  holds the handler, under a new unsubscribe callable.
\<close>

definition subscribe_returns :: "ext \<Rightarrow> nat \<Rightarrow> exn option \<Rightarrow> world \<Rightarrow> world" where
  "subscribe_returns x tid outcome w =
     (case tasks w tid of
        Some (Await_subscribe v first) \<Rightarrow>
          (case outcome of
             Some e \<Rightarrow> return_task tid (except_reply e) w
           | None \<Rightarrow>
              (let unsub = next_token w;
                   topic = subscribe_topic x (l_rriot v) (l_mqtt_params v) (l_device_id v);
                   w1 = w\<lparr> next_token := unsub + 1,
                          live := live w @ [\<lparr> sub_token = unsub, sub_session = l_session v,
                                             sub_topic = topic,
                                             sub_handler = On_message (l_request_id v) (l_local_key v) \<rparr>] \<rparr>
               in case store_unsubscribe x first (l_user_id v) (l_device_id v) unsub w1 of
                    Inl e \<Rightarrow> return_task tid (except_reply e) w1
                  | Inr w2 \<Rightarrow>
                     (case encode x (l_rriot v) (l_command v)
                             (case l_params v of None \<Rightarrow> [] | Some ps \<Rightarrow> ps) (l_local_key v) of
                        Inl e \<Rightarrow> return_task tid (except_reply e) w2
                      | Inr encoded \<Rightarrow>
                          w2\<lparr> calls := calls w2 @
                                 [Publish (l_session v)
                                    (publish_topic x (l_rriot v) (l_mqtt_params v) (l_device_id v))
                                    encoded],
                              tasks := (tasks w2)(tid \<mapsto> Await_publish v) \<rparr>)))
      | _ \<Rightarrow> w)"

text \<open>\<^verbatim>\<open>self.pending_responses.pop(request_id, None)\<close>, line 194.\<close>

definition pop_pending :: "string \<Rightarrow> world \<Rightarrow> world" where
  "pop_pending request_id w =
     w\<lparr> pending_responses := (pending_responses w)(request_id := None) \<rparr>"

text \<open>
  \<^verbatim>\<open>wait_for\<close> hands over a future that is done (lines 189-201): a result is classified
  by \<^verbatim>\<open>api_error\<close>; an exception is raised in the coroutine, where a \<^verbatim>\<open>TimeoutError\<close> meets
  the inner \<^verbatim>\<open>except\<close> clause and any other exception the outer ones.
\<close>

definition finish_wait :: "nat \<Rightarrow> locals \<Rightarrow> world \<Rightarrow> world" where
  "finish_wait tid v w =
     (case futures w (l_response_future v) of
        Pending \<Rightarrow> w
      | Result response \<Rightarrow>
          return_task tid
            (case api_error response of
               Some err \<Rightarrow> Reply_error err
             | None \<Rightarrow> Reply_result (data response)) w
      | Raised e \<Rightarrow>
          (case e of
             TimeoutError s \<Rightarrow>
               return_task tid (Reply_error ''Command timeout'') (pop_pending (l_request_id v) w)
           | _ \<Rightarrow> return_task tid (except_reply e) w)
      | Cancelled \<Rightarrow> w\<lparr> tasks := (tasks w)(tid \<mapsto> Aborted) \<rparr>)"

text \<open>
  \<^verbatim>\<open>session.publish\<close> returns or raises (lines 183-189). \<^verbatim>\<open>wait_for\<close> with a future that is
  already done returns at once; otherwise the coroutine is suspended until the future is
  done or \<^verbatim>\<open>timeout=30.0\<close> seconds have passed.
\<close>

definition publish_returns :: "nat \<Rightarrow> exn option \<Rightarrow> world \<Rightarrow> world" where
  "publish_returns tid outcome w =
     (case tasks w tid of
        Some (Await_publish v) \<Rightarrow>
          (case outcome of
             Some e \<Rightarrow> return_task tid (except_reply e) w
           | None \<Rightarrow>
               (if fut_done (futures w (l_response_future v)) then finish_wait tid v w
                else w\<lparr> tasks := (tasks w)(tid \<mapsto> Await_response v (now w + 30)) \<rparr>))
      | _ \<Rightarrow> w)"

text \<open>The future of a waiting invocation is done: \<^verbatim>\<open>wait_for\<close> returns or raises.\<close>

definition response_ready :: "nat \<Rightarrow> world \<Rightarrow> world" where
  "response_ready tid w =
     (case tasks w tid of
        Some (Await_response v t) \<Rightarrow>
          (if fut_done (futures w (l_response_future v)) then finish_wait tid v w else w)
      | _ \<Rightarrow> w)"

text \<open>
  The timer of \<^verbatim>\<open>wait_for\<close> fires: not before its time, and with no effect on a future
  that is done. It cancels the future; the coroutine resumes in a later turn of the loop.
\<close>

definition deadline :: "nat \<Rightarrow> world \<Rightarrow> world" where
  "deadline tid w =
     (case tasks w tid of
        Some (Await_response v t) \<Rightarrow>
          (if t \<le> now w \<and> \<not> fut_done (futures w (l_response_future v))
           then w\<lparr> futures := (futures w)(l_response_future v := Cancelled),
                   tasks := (tasks w)(tid \<mapsto> Timed_out v) \<rparr>
           else w)
      | _ \<Rightarrow> w)"

text \<open>The coroutine resumes with \<^verbatim>\<open>asyncio.TimeoutError\<close>, lines 193-195.\<close>

definition timeout_resume :: "nat \<Rightarrow> world \<Rightarrow> world" where
  "timeout_resume tid w =
     (case tasks w tid of
        Some (Timed_out v) \<Rightarrow>
          return_task tid (Reply_error ''Command timeout'') (pop_pending (l_request_id v) w)
      | _ \<Rightarrow> w)"

section \<open>Runs of the process\<close>

text \<open>
  What can happen in one turn of the event loop: a request of the control surface (the
  lifecycle operations, run to their end; the start of a \<^verbatim>\<open>send_command\<close> under a fresh
  invocation number), the completion of a transport call a coroutine waits for, a
  payload handed to a registered handler, a timer, or the passing of time. Outcomes that
  the transport decides (whether a call raises) come with the action.
\<close>

datatype action =
    Do_initialize string json "exn option" "exn option"
  | Do_disconnect string "exn option"
  | Do_shutdown "string \<Rightarrow> exn option"
  | Do_send nat string string string string "json list option"
  | Subscribe_done nat "exn option"
  | Publish_done nat "exn option"
  | Deliver nat bytes
  | Response_ready nat
  | Deadline nat
  | Resume_timeout nat
  | Advance real

fun step :: "ext \<Rightarrow> action \<Rightarrow> world \<Rightarrow> world" where
  "step x (Do_initialize user_id rriot_dict close_outcome start_outcome) w =
     snd (initialize x user_id rriot_dict close_outcome start_outcome w)"
| "step x (Do_disconnect user_id close_outcome) w = close_session user_id close_outcome w"
| "step x (Do_shutdown close_outcomes) w = shutdown close_outcomes w"
| "step x (Do_send tid user_id device_id local_key command params) w =
     (if tasks w tid = None
      then send_command_begin x tid user_id device_id local_key command params w
      else w)"
| "step x (Subscribe_done tid outcome) w = subscribe_returns x tid outcome w"
| "step x (Publish_done tid outcome) w = publish_returns tid outcome w"
| "step x (Deliver tok data_arg) w = deliver x tok data_arg w"
| "step x (Response_ready tid) w = response_ready tid w"
| "step x (Deadline tid) w = deadline tid w"
| "step x (Resume_timeout tid) w = timeout_resume tid w"
| "step x (Advance d) w = (if 0 \<le> d then w\<lparr> now := now w + d \<rparr> else w)"

definition run :: "ext \<Rightarrow> action list \<Rightarrow> world \<Rightarrow> world" where
  "run x acts w = fold (step x) acts w"

section \<open>Notions used to state the properties\<close>

text \<open>
  The request identifier an action allocates, if any: a \<^verbatim>\<open>send_command\<close> that gets past
  the guard of line 130 and \<^verbatim>\<open>create_mqtt_params\<close> allocates one in line 138 and is then
  suspended in \<^verbatim>\<open>subscribe\<close>; no other action allocates.
\<close>

definition allocates :: "ext \<Rightarrow> action \<Rightarrow> world \<Rightarrow> string option" where
  "allocates x a w =
     (case a of
        Do_send tid user_id device_id local_key command params \<Rightarrow>
          (if tasks w tid = None
           then (case tasks (step x a w) tid of
                   Some (Await_subscribe v first) \<Rightarrow> Some (l_request_id v)
                 | _ \<Rightarrow> None)
           else None)
      | _ \<Rightarrow> None)"

text \<open>The identifiers allocated along a run, in order.\<close>

fun request_ids :: "ext \<Rightarrow> action list \<Rightarrow> world \<Rightarrow> string list" where
  "request_ids x [] w = []"
| "request_ids x (a # acts) w =
     (case allocates x a w of None \<Rightarrow> [] | Some r \<Rightarrow> [r]) @ request_ids x acts (step x a w)"

subsection \<open>A concrete codec and concrete credentials\<close>

text \<open>
  An instance of the collaborators, for running the model on concrete inputs: every
  payload parses to one reply-kind message, except \<open>''garbage''\<close>, which does not parse,
  and \<open>''invalid''\<close>, whose reply does not decode.
\<close>

definition demo_ext :: ext where
  "demo_ext =
     \<lparr> create_mqtt_params = (\<lambda>r. Inr (MqttParams ''acct'')),
       parse = (\<lambda>d k. if d = ''garbage'' then Inl (OtherException ''cannot parse'')
                       else Inr [RoborockMessage RPC_RESPONSE d]),
       decode_rpc_response =
         (\<lambda>m. if payload m = ''invalid'' then Inl (RoborockException ''Invalid payload'')
               else Inr (ResponseMessage None (JStr (payload m)))),
       encode = (\<lambda>r c ps k. Inr c),
       format_json = (\<lambda>j. case j of JStr s \<Rightarrow> s | _ \<Rightarrow> ''?''),
       repr_str = (\<lambda>s. s) \<rparr>"

definition demo_creds :: json where
  "demo_creds =
     JObj [(''u'', JStr ''uu''), (''s'', JStr ''ss''), (''h'', JStr ''hh''), (''k'', JStr ''kk''),
           (''r'', JObj [(''a'', JStr ''aa'')])]"

text \<open>Three sends of two users to two devices, none of them resumed.\<close>

definition demo_sends :: "action list" where
  "demo_sends =
     [Do_initialize ''u1'' demo_creds None None,
      Do_initialize ''u2'' demo_creds None None,
      Do_send 0 ''u1'' ''dev1'' ''key'' ''get_status'' None,
      Do_send 1 ''u2'' ''dev2'' ''key'' ''app_start'' None,
      Do_send 2 ''u1'' ''dev1'' ''key'' ''app_stop'' None]"


text \<open>
  A world in which user \<open>u1\<close> has a session and one send to \<open>dev1\<close> waits for its
  reply, and a second \<^verbatim>\<open>initialize\<close> for \<open>u1\<close> there whose \<^verbatim>\<open>start()\<close> raises.
\<close>

definition demo_waiting :: world where
  "demo_waiting =
     run demo_ext
       [Do_initialize ''u1'' demo_creds None None,
        Do_send 0 ''u1'' ''dev1'' ''key'' ''get_status'' None,
        Subscribe_done 0 None,
        Publish_done 0 None] init_world"



text \<open>The local variables of that send, and the same send five seconds into the run, before its publish returns.\<close>

definition demo_locals :: locals where
  "demo_locals =
     \<lparr> l_user_id = ''u1'', l_device_id = ''dev1'', l_local_key = ''key'',
       l_command = ''get_status'', l_params = None, l_session = 0,
       l_rriot = RRiot (JStr ''uu'') (JStr ''ss'') (JStr ''hh'') (JStr ''kk'')
                   (Reference (JStr ''aa'') JNull JNull),
       l_mqtt_params = MqttParams ''acct'', l_request_id = ''u1:dev1:1'',
       l_response_future = 0 \<rparr>"

definition demo_published :: world where
  "demo_published =
     run demo_ext
       [Do_initialize ''u1'' demo_creds None None,
        Advance 5,
        Do_send 0 ''u1'' ''dev1'' ''key'' ''get_status'' None,
        Subscribe_done 0 None] init_world"


subsection \<open>Counting removals and resolutions along a run\<close>

text \<open>The local variables of a suspended invocation.\<close>

fun frame_locals :: "frame \<Rightarrow> locals option" where
  "frame_locals (Await_subscribe v first) = Some v"
| "frame_locals (Await_publish v) = Some v"
| "frame_locals (Await_response v t) = Some v"
| "frame_locals (Timed_out v) = Some v"
| "frame_locals (Returned r) = None"
| "frame_locals Aborted = None"

text \<open>
  A step removes an identifier when the identifier is in \<^verbatim>\<open>pending_responses\<close> before the
  step and not after it; a step resolves a future when the future is not done before the
  step and done after it (with a result, an exception or a cancellation).
\<close>

definition removed_by :: "ext \<Rightarrow> string \<Rightarrow> action \<Rightarrow> world \<Rightarrow> bool" where
  "removed_by x request_id a w =
     (pending_responses w request_id \<noteq> None \<and>
      pending_responses (step x a w) request_id = None)"

fun removals :: "ext \<Rightarrow> string \<Rightarrow> action list \<Rightarrow> world \<Rightarrow> nat" where
  "removals x request_id [] w = 0"
| "removals x request_id (a # acts) w =
     (if removed_by x request_id a w then 1 else 0) + removals x request_id acts (step x a w)"

definition resolved_by :: "ext \<Rightarrow> nat \<Rightarrow> action \<Rightarrow> world \<Rightarrow> bool" where
  "resolved_by x fut a w =
     (\<not> fut_done (futures w fut) \<and> fut_done (futures (step x a w) fut))"

fun resolutions :: "ext \<Rightarrow> nat \<Rightarrow> action list \<Rightarrow> world \<Rightarrow> nat" where
  "resolutions x fut [] w = 0"
| "resolutions x fut (a # acts) w =
     (if resolved_by x fut a w then 1 else 0) + resolutions x fut acts (step x a w)"

subsection \<open>Invariants of a run\<close>

text \<open>
  An identifier is issued when it carries a counter value that \<^verbatim>\<open>request_counter\<close> has
  reached. Along a run, every identifier in the table is issued; every future beyond
  \<open>next_future\<close> is untouched; and the table and the suspended invocations refer only to
  futures that were created.
\<close>

definition issued :: "world \<Rightarrow> string \<Rightarrow> bool" where
  "issued w request_id =
     (\<exists>u d n. request_id = make_request_id u d n \<and> n \<le> request_counter w)"

definition pending_issued :: "world \<Rightarrow> bool" where
  "pending_issued w = (\<forall>rid. pending_responses w rid \<noteq> None \<longrightarrow> issued w rid)"

definition futures_allocated :: "world \<Rightarrow> bool" where
  "futures_allocated w =
     ((\<forall>g. next_future w \<le> g \<longrightarrow> futures w g = Pending) \<and>
      (\<forall>rid g. pending_responses w rid = Some g \<longrightarrow> g < next_future w) \<and>
      (\<forall>tid fr v. tasks w tid = Some fr \<longrightarrow> frame_locals fr = Some v \<longrightarrow>
         l_response_future v < next_future w))"

text \<open>
  Runs of one send: a reply arrives, then a second payload, then the timer; and, in two
  pieces, the send up to its wait, then the timer and the resumption of the send.
\<close>

definition demo_race :: "action list" where
  "demo_race =
     [Do_initialize ''u1'' demo_creds None None,
      Do_send 0 ''u1'' ''dev1'' ''key'' ''get_status'' None,
      Subscribe_done 0 None,
      Publish_done 0 None,
      Deliver 0 ''hello'',
      Deliver 0 ''again'',
      Advance 30,
      Deadline 0,
      Resume_timeout 0,
      Response_ready 0]"

definition demo_until_wait :: "action list" where
  "demo_until_wait =
     [Do_initialize ''u1'' demo_creds None None,
      Do_send 0 ''u1'' ''dev1'' ''key'' ''get_status'' None,
      Subscribe_done 0 None,
      Publish_done 0 None]"

definition demo_expiry :: "action list" where
  "demo_expiry = [Advance 30, Deadline 0, Resume_timeout 0]"

text \<open>
  An invocation owns the identifier in the local variables of its frame. Along a run,
  owned identifiers are issued and have one owner each; the identifiers of the
  registered handlers are issued; no handler is registered yet for an invocation that is
  suspended in \<^verbatim>\<open>subscribe\<close>, and the identifier of such an invocation is in the table.
\<close>

definition owns :: "world \<Rightarrow> nat \<Rightarrow> string \<Rightarrow> bool" where
  "owns w tid request_id =
     (\<exists>fr v. tasks w tid = Some fr \<and> frame_locals fr = Some v \<and> l_request_id v = request_id)"

definition tasks_consistent :: "world \<Rightarrow> bool" where
  "tasks_consistent w =
     ((\<forall>tid rid. owns w tid rid \<longrightarrow> issued w rid) \<and>
      (\<forall>tid tid' rid. owns w tid rid \<longrightarrow> owns w tid' rid \<longrightarrow> tid = tid') \<and>
      (\<forall>s \<in> set (live w). issued w (handler_request_id (sub_handler s))) \<and>
      (\<forall>s \<in> set (live w). \<forall>tid v first. tasks w tid = Some (Await_subscribe v first) \<longrightarrow>
         handler_request_id (sub_handler s) \<noteq> l_request_id v) \<and>
      (\<forall>tid v first. tasks w tid = Some (Await_subscribe v first) \<longrightarrow>
         pending_responses w (l_request_id v) \<noteq> None))"

text \<open>
  An identifier is unowned when it is issued and no invocation owns it; it is abandoned
  when, besides, it is in the table and no registered handler carries it.
\<close>

definition unowned :: "world \<Rightarrow> string \<Rightarrow> bool" where
  "unowned w request_id = (issued w request_id \<and> (\<forall>tid. \<not> owns w tid request_id))"

definition abandoned :: "world \<Rightarrow> string \<Rightarrow> bool" where
  "abandoned w request_id =
     (unowned w request_id \<and> pending_responses w request_id \<noteq> None \<and>
      (\<forall>s \<in> set (live w). handler_request_id (sub_handler s) \<noteq> request_id))"

text \<open>
  A send that is suspended in \<^verbatim>\<open>subscribe\<close>, and what may happen after it has failed
  there: a payload, a second send to the same device with its reply, the timer, a
  disconnect.
\<close>

definition demo_subscribing :: "action list" where
  "demo_subscribing =
     [Do_initialize ''u1'' demo_creds None None,
      Do_send 0 ''u1'' ''dev1'' ''key'' ''get_status'' None]"

definition demo_afterwards :: "action list" where
  "demo_afterwards =
     [Deliver 0 ''hello'',
      Do_send 1 ''u1'' ''dev1'' ''key'' ''get_status'' None,
      Subscribe_done 1 None,
      Publish_done 1 None,
      Deliver 0 ''hello'',
      Response_ready 1,
      Advance 30,
      Deadline 0,
      Resume_timeout 0,
      Do_disconnect ''u1'' None]"

text \<open>
  Two sends to one device: the second begins while the first is suspended in
  \<^verbatim>\<open>subscribe\<close>, or after the first has subscribed.
\<close>

definition demo_overlap :: "action list" where
  "demo_overlap =
     [Do_initialize ''u1'' demo_creds None None,
      Do_send 0 ''u1'' ''dev1'' ''key'' ''get_status'' None,
      Do_send 1 ''u1'' ''dev1'' ''key'' ''get_status'' None,
      Subscribe_done 0 None,
      Subscribe_done 1 None]"

definition demo_in_turn :: "action list" where
  "demo_in_turn =
     [Do_initialize ''u1'' demo_creds None None,
      Do_send 0 ''u1'' ''dev1'' ''key'' ''get_status'' None,
      Subscribe_done 0 None,
      Do_send 1 ''u1'' ''dev1'' ''key'' ''get_status'' None,
      Subscribe_done 1 None]"


section \<open>Request identifiers are unique\<close>

subsection \<open>The decimal rendering is injective and has no colon\<close>

lemma digit_char_inj: "a < 10 \<Longrightarrow> b < 10 \<Longrightarrow> digit_char a = digit_char b \<Longrightarrow> a = b"
  by (simp add: digit_char_def char_of_eq_iff take_bit_nat_eq_self)

lemma digit_char_not_colon: "d < 10 \<Longrightarrow> digit_char d \<noteq> CHR '':''"
proof
  assume d: "d < 10" and "digit_char d = CHR '':''"
  then have "(of_char (digit_char d) :: nat) = of_char (CHR '':'')" by simp
  with d show False by (simp add: digit_char_def)
qed

lemma str_nat_not_Nil: "str_nat n \<noteq> []"
  by (subst str_nat.simps) simp

lemma colon_notin_str_nat: "CHR '':'' \<notin> set (str_nat n)"
proof (induction n rule: str_nat.induct)
  case (1 n)
  show ?case
  proof (cases "n < 10")
    case True
    then show ?thesis by (subst str_nat.simps) (simp add: digit_char_not_colon [symmetric])
  next
    case False
    with 1 show ?thesis
      using digit_char_not_colon [of "n mod 10"] by (subst str_nat.simps) auto
  qed
qed

lemma str_nat_inj: "str_nat n = str_nat m \<Longrightarrow> n = m"
proof (induction n arbitrary: m rule: str_nat.induct)
  case (1 n)
  show ?case
  proof (cases "n < 10")
    case True
    show ?thesis
    proof (cases "m < 10")
      case m: True
      from 1(2) True m have "[digit_char n] = [digit_char m]"
        by (simp add: str_nat.simps [of n] str_nat.simps [of m])
      with True m show ?thesis by (simp add: digit_char_inj)
    next
      case m: False
      from 1(2) True m have "[digit_char n] = str_nat (m div 10) @ [digit_char (m mod 10)]"
        by (simp add: str_nat.simps [of n] str_nat.simps [of m])
      then show ?thesis using str_nat_not_Nil [of "m div 10"] by simp
    qed
  next
    case False
    show ?thesis
    proof (cases "m < 10")
      case m: True
      from 1(2) False m have "str_nat (n div 10) @ [digit_char (n mod 10)] = [digit_char m]"
        by (simp add: str_nat.simps [of n] str_nat.simps [of m])
      then show ?thesis using str_nat_not_Nil [of "n div 10"] by simp
    next
      case m: False
      from 1(2) False m
      have "str_nat (n div 10) @ [digit_char (n mod 10)] = str_nat (m div 10) @ [digit_char (m mod 10)]"
        by (simp add: str_nat.simps [of n] str_nat.simps [of m])
      then have a: "str_nat (n div 10) = str_nat (m div 10)"
        and b: "digit_char (n mod 10) = digit_char (m mod 10)" by simp_all
      from 1(1) [OF False a] have "n div 10 = m div 10" .
      moreover from b have "n mod 10 = m mod 10" by (simp add: digit_char_inj)
      ultimately show ?thesis by (metis div_mult_mod_eq)
    qed
  qed
qed

lemma after_last_separator:
  assumes "xs @ c # s = ys @ c # t" and "c \<notin> set s" and "c \<notin> set t"
  shows "s = t"
proof -
  have "takeWhile (\<lambda>a. a \<noteq> c) (rev (xs @ c # s)) = rev s"
    using assms(2) by (auto simp add: takeWhile_tail)
  moreover have "takeWhile (\<lambda>a. a \<noteq> c) (rev (ys @ c # t)) = rev t"
    using assms(3) by (auto simp add: takeWhile_tail)
  ultimately show ?thesis using assms(1) by (metis rev_is_rev_conv)
qed

lemma make_request_id_inj:
  assumes "make_request_id u d n = make_request_id u' d' m"
  shows "n = m"
proof -
  from assms have "(u @ '':'' @ d) @ CHR '':'' # str_nat n = (u' @ '':'' @ d') @ CHR '':'' # str_nat m"
    by (simp add: make_request_id_def)
  then have "str_nat n = str_nat m"
    by (rule after_last_separator) (rule colon_notin_str_nat)+
  then show ?thesis by (rule str_nat_inj)
qed

subsection \<open>The counter never decreases, and an allocation increments it\<close>

lemma counter_fold_unsubscribe [simp]:
  "request_counter (fold unsubscribe toks w) = request_counter w"
  by (induction toks arbitrary: w) (simp_all add: unsubscribe_def)

lemma counter_close_session [simp]:
  "request_counter (close_session u outcome w) = request_counter w"
  by (simp add: close_session_def close_transport_def Let_def split: option.splits)

lemma counter_shutdown_aux:
  "request_counter (fold (\<lambda>u. close_session u (f u)) us w) = request_counter w"
  by (induction us arbitrary: w) simp_all

lemma counter_initialize [simp]:
  "request_counter (snd (initialize x u d c s w)) = request_counter w"
  by (simp add: initialize_def Let_def split: sum.splits option.splits)

lemma counter_pop_and_set [simp]:
  "request_counter (pop_and_set r out w) = request_counter w"
  by (simp add: pop_and_set_def split: option.splits)

lemma counter_handle_messages [simp]:
  "request_counter (handle_messages x r msgs w) = request_counter w"
  by (induction msgs arbitrary: w) (simp_all split: sum.splits)

lemma counter_on_message [simp]:
  "request_counter (on_message x h d w) = request_counter w"
  by (cases h) (simp split: sum.splits)

lemma counter_deliver [simp]:
  "request_counter (deliver x tok d w) = request_counter w"
  by (simp add: deliver_def split: option.splits)

lemma counter_finish_wait [simp]:
  "request_counter (finish_wait tid v w) = request_counter w"
  by (simp add: finish_wait_def return_task_def pop_pending_def split: future.splits exn.splits)

lemma counter_subscribe_returns [simp]:
  "request_counter (subscribe_returns x tid outcome w) = request_counter w"
  by (auto simp add: subscribe_returns_def store_unsubscribe_def return_task_def Let_def
      split: option.splits frame.splits sum.splits if_splits)

lemma counter_publish_returns [simp]:
  "request_counter (publish_returns tid outcome w) = request_counter w"
  by (simp add: publish_returns_def return_task_def split: option.splits frame.splits)

lemma counter_response_ready [simp]:
  "request_counter (response_ready tid w) = request_counter w"
  by (simp add: response_ready_def split: option.splits frame.splits)

lemma counter_deadline [simp]:
  "request_counter (deadline tid w) = request_counter w"
  by (simp add: deadline_def split: option.splits frame.splits)

lemma counter_timeout_resume [simp]:
  "request_counter (timeout_resume tid w) = request_counter w"
  by (simp add: timeout_resume_def return_task_def pop_pending_def split: option.splits frame.splits)

lemma send_command_begin_cases:
  "(request_counter (send_command_begin x tid u d k c p w) = request_counter w \<and>
     (\<exists>r. tasks (send_command_begin x tid u d k c p w) tid = Some (Returned r))) \<or>
   (request_counter (send_command_begin x tid u d k c p w) = request_counter w + 1 \<and>
     (\<exists>v first. tasks (send_command_begin x tid u d k c p w) tid = Some (Await_subscribe v first) \<and>
        l_request_id v = make_request_id u d (request_counter w + 1)))"
  by (auto simp add: send_command_begin_def return_task_def unsubscribe_def Let_def
      split: option.splits sum.splits)

lemma counter_step_mono: "request_counter w \<le> request_counter (step x a w)"
proof (cases a)
  case (Do_send tid u d k c p)
  then show ?thesis using send_command_begin_cases [of x tid u d k c p w] by auto
next
  case (Do_shutdown f)
  then show ?thesis by (simp add: shutdown_def counter_shutdown_aux)
qed simp_all

lemma counter_run_mono: "request_counter w \<le> request_counter (run x acts w)"
proof (induction acts arbitrary: w)
  case Nil
  show ?case by (simp add: run_def)
next
  case (Cons a acts)
  have "request_counter w \<le> request_counter (step x a w)" by (rule counter_step_mono)
  also have "\<dots> \<le> request_counter (run x acts (step x a w))" by (rule Cons.IH)
  finally show ?case by (simp add: run_def)
qed

lemma allocates_Some:
  assumes "allocates x a w = Some r"
  shows "\<exists>u d. r = make_request_id u d (request_counter w + 1) \<and>
          request_counter (step x a w) = request_counter w + 1"
proof (cases a)
  case (Do_send tid u d k c p)
  with assms show ?thesis
    using send_command_begin_cases [of x tid u d k c p w]
    by (auto simp add: allocates_def split: if_splits option.splits frame.splits)
qed (use assms in \<open>simp_all add: allocates_def\<close>)

lemma request_ids_above:
  "r \<in> set (request_ids x acts w) \<Longrightarrow>
     \<exists>u d n. r = make_request_id u d n \<and> request_counter w < n"
proof (induction acts arbitrary: w)
  case Nil
  then show ?case by simp
next
  case (Cons a acts)
  from Cons.prems consider
    (new) "allocates x a w = Some r" | (later) "r \<in> set (request_ids x acts (step x a w))"
    by (auto split: option.splits)
  then show ?case
  proof cases
    case new
    from allocates_Some [OF new] show ?thesis by auto
  next
    case later
    from Cons.IH [OF later] obtain u d n where
      "r = make_request_id u d n" "request_counter (step x a w) < n" by blast
    moreover have "request_counter w < n"
      using counter_step_mono [of w x a] \<open>request_counter (step x a w) < n\<close> by linarith
    ultimately show ?thesis by blast
  qed
qed

lemma distinct_request_ids_aux: "distinct (request_ids x acts w)"
proof (induction acts arbitrary: w)
  case Nil
  show ?case by simp
next
  case (Cons a acts)
  show ?case
  proof (cases "allocates x a w")
    case None
    with Cons.IH show ?thesis by simp
  next
    case (Some r)
    from allocates_Some [OF Some] obtain u d where
      r: "r = make_request_id u d (request_counter w + 1)"
      and c: "request_counter (step x a w) = request_counter w + 1" by blast
    have "r \<notin> set (request_ids x acts (step x a w))"
    proof
      assume "r \<in> set (request_ids x acts (step x a w))"
      from request_ids_above [OF this] obtain u' d' n where
        "r = make_request_id u' d' n" "request_counter (step x a w) < n" by blast
      with r c make_request_id_inj [of u d "request_counter w + 1" u' d' n]
      show False by simp
    qed
    with Some Cons.IH show ?thesis by simp
  qed
qed

subsection \<open>The claim\<close>

text \<open>
  Claim C4. The request identifiers allocated by \<^verbatim>\<open>send_command\<close> along any run of the
  process, from any state, are pairwise distinct, whatever users and devices the sends
  name: the global counter never decreases, every allocation increments it by one and
  renders the new value as the last component of the identifier, and two identifiers
  built from different counter values differ whatever their user and device components.
\<close>

theorem request_ids_pairwise_unique:
  "distinct (request_ids x acts w) \<and>
   request_counter w \<le> request_counter (run x acts w) \<and>
   (\<forall>tid u d k c p r.
      allocates x (Do_send tid u d k c p) w = Some r \<longrightarrow>
        r = make_request_id u d (request_counter w + 1) \<and>
        request_counter (step x (Do_send tid u d k c p) w) = request_counter w + 1) \<and>
   (\<forall>u d n u' d' m. make_request_id u d n = make_request_id u' d' m \<longrightarrow> n = m)"
proof (intro conjI allI impI)
  show "distinct (request_ids x acts w)" by (rule distinct_request_ids_aux)
  show "request_counter w \<le> request_counter (run x acts w)" by (rule counter_run_mono)
next
  fix tid u d k c p r
  assume a: "allocates x (Do_send tid u d k c p) w = Some r"
  then show "r = make_request_id u d (request_counter w + 1)"
    using send_command_begin_cases [of x tid u d k c p w]
    by (auto simp add: allocates_def split: if_splits option.splits frame.splits)
  from allocates_Some [OF a]
  show "request_counter (step x (Do_send tid u d k c p) w) = request_counter w + 1" by blast
next
  fix u d n u' d' m
  assume "make_request_id u d n = make_request_id u' d' m"
  then show "n = m" by (rule make_request_id_inj)
qed


theorem request_ids_pairwise_unique_witness:
  "request_ids demo_ext demo_sends init_world = [''u1:dev1:1'', ''u2:dev2:2'', ''u1:dev1:3''] \<and>
   distinct (request_ids demo_ext demo_sends init_world) \<and>
   allocates demo_ext (Do_send 0 ''u1'' ''dev1'' ''key'' ''get_status'' None)
      (run demo_ext [Do_initialize ''u1'' demo_creds None None] init_world) = Some ''u1:dev1:1'' \<and>
   ''u1:dev1:1'' = make_request_id ''u1'' ''dev1''
      (request_counter (run demo_ext [Do_initialize ''u1'' demo_creds None None] init_world) + 1)"
proof -
  have a: "allocates demo_ext (Do_send 0 ''u1'' ''dev1'' ''key'' ''get_status'' None)
      (run demo_ext [Do_initialize ''u1'' demo_creds None None] init_world) = Some ''u1:dev1:1''"
    by code_simp
  have r: "request_ids demo_ext demo_sends init_world = [''u1:dev1:1'', ''u2:dev2:2'', ''u1:dev1:3'']"
    by code_simp
  from request_ids_pairwise_unique [of demo_ext demo_sends init_world]
  have d: "distinct (request_ids demo_ext demo_sends init_world)" by blast
  from request_ids_pairwise_unique
    [of demo_ext "[]" "run demo_ext [Do_initialize ''u1'' demo_creds None None] init_world"] a
  have "''u1:dev1:1'' = make_request_id ''u1'' ''dev1''
      (request_counter (run demo_ext [Do_initialize ''u1'' demo_creds None None] init_world) + 1)"
    by blast
  with a r d show ?thesis by blast
qed

section \<open>Session registry: close and initialize\<close>

subsection \<open>Closing a session\<close>

lemma fold_unsubscribe_fields [simp]:
  "sessions (fold unsubscribe toks w) = sessions w"
  "rriot_data (fold unsubscribe toks w) = rriot_data w"
  "subscriptions (fold unsubscribe toks w) = subscriptions w"
  "pending_responses (fold unsubscribe toks w) = pending_responses w"
  "futures (fold unsubscribe toks w) = futures w"
  "next_future (fold unsubscribe toks w) = next_future w"
  "next_session (fold unsubscribe toks w) = next_session w"
  "next_token (fold unsubscribe toks w) = next_token w"
  "now (fold unsubscribe toks w) = now w"
  "tasks (fold unsubscribe toks w) = tasks w"
  by (induction toks arbitrary: w) (simp_all add: unsubscribe_def)

lemma fold_unsubscribe_calls [simp]:
  "calls (fold unsubscribe toks w) = calls w @ map Unsubscribe toks"
  by (induction toks arbitrary: w) (simp_all add: unsubscribe_def)

lemma fold_unsubscribe_live [simp]:
  "live (fold unsubscribe toks w) = filter (\<lambda>s. sub_token s \<notin> set toks) (live w)"
  by (induction toks arbitrary: w) (auto simp add: unsubscribe_def intro: filter_cong)

lemma map_of_delete_same [simp]: "map_of (AList.delete k al) k = None"
  by (simp add: AList.delete_conv')



lemma close_session_removes:
  "map_of (sessions (close_session u co w)) u = None"
  "rriot_data (close_session u co w) u = None"
  "map_of (subscriptions (close_session u co w)) u = None"
  by (simp_all add: close_session_def close_transport_def Let_def split: option.splits)

lemma close_session_others:
  "u' \<noteq> u \<Longrightarrow> map_of (sessions (close_session u co w)) u' = map_of (sessions w) u'"
  "u' \<noteq> u \<Longrightarrow> rriot_data (close_session u co w) u' = rriot_data w u'"
  "u' \<noteq> u \<Longrightarrow> map_of (subscriptions (close_session u co w)) u' = map_of (subscriptions w) u'"
  by (simp_all add: close_session_def close_transport_def Let_def split: option.splits)





subsection \<open>Sending without a session\<close>

text \<open>
  Claim C6. When the user has no session (or no credentials) registered, and in
  particular after \<^verbatim>\<open>_close_session(user_id)\<close>, \<^verbatim>\<open>send_command\<close> returns
  \<^verbatim>\<open>{"success": False, "error": "Session not initialized. Call /init first."}\<close> and
  changes nothing else: no transport call is logged, the request counter and the table
  of pending requests are as before.
\<close>

theorem not_initialized_send:
  "(map_of (sessions w) u = None \<or> rriot_data w u = None \<longrightarrow>
      send_command_begin x tid u d k c p w =
        w\<lparr> tasks := (tasks w)(tid \<mapsto>
              Returned (Reply_error ''Session not initialized. Call /init first.'')) \<rparr>) \<and>
   send_command_begin x tid u d k c p (close_session u co w) =
     (close_session u co w)\<lparr> tasks := (tasks (close_session u co w))(tid \<mapsto>
        Returned (Reply_error ''Session not initialized. Call /init first.'')) \<rparr>"
proof -
  have *: "send_command_begin x tid u d k c p w' =
        w'\<lparr> tasks := (tasks w')(tid \<mapsto>
              Returned (Reply_error ''Session not initialized. Call /init first.'')) \<rparr>"
    if "map_of (sessions w') u = None \<or> rriot_data w' u = None" for w'
    using that by (auto simp add: send_command_begin_def return_task_def split: option.splits)
  from * [of w] * [of "close_session u co w"] close_session_removes(1) [of u co w]
  show ?thesis by blast
qed

theorem not_initialized_send_witness:
  "map_of (sessions init_world) ''u1'' = None \<and>
   tasks (send_command_begin demo_ext 7 ''u1'' ''dev1'' ''key'' ''get_status'' None init_world) 7 =
     Some (Returned (Reply_error ''Session not initialized. Call /init first.'')) \<and>
   calls (send_command_begin demo_ext 7 ''u1'' ''dev1'' ''key'' ''get_status'' None init_world) = [] \<and>
   request_counter (send_command_begin demo_ext 7 ''u1'' ''dev1'' ''key'' ''get_status'' None init_world) = 0 \<and>
   map_of (sessions demo_waiting) ''u1'' = Some 0 \<and>
   calls (send_command_begin demo_ext 7 ''u1'' ''dev1'' ''key'' ''get_status'' None
            (close_session ''u1'' None demo_waiting)) =
     calls (close_session ''u1'' None demo_waiting)"
proof -
  have a: "map_of (sessions init_world) ''u1'' = None" by (simp add: init_world_def)
  with not_initialized_send [of init_world "''u1''" demo_ext 7 "''dev1''" "''key''" "''get_status''" None]
  have b: "send_command_begin demo_ext 7 ''u1'' ''dev1'' ''key'' ''get_status'' None init_world =
    init_world\<lparr> tasks := (tasks init_world)(7 \<mapsto>
              Returned (Reply_error ''Session not initialized. Call /init first.'')) \<rparr>"
    by blast
  have s: "map_of (sessions demo_waiting) ''u1'' = Some 0" by code_simp
  from not_initialized_send [of demo_waiting "''u1''" demo_ext 7 "''dev1''" "''key''" "''get_status''" None None]
  have "send_command_begin demo_ext 7 ''u1'' ''dev1'' ''key'' ''get_status'' None
            (close_session ''u1'' None demo_waiting) =
     (close_session ''u1'' None demo_waiting)\<lparr> tasks := (tasks (close_session ''u1'' None demo_waiting))(7 \<mapsto>
        Returned (Reply_error ''Session not initialized. Call /init first.'')) \<rparr>" by blast
  then have c: "calls (send_command_begin demo_ext 7 ''u1'' ''dev1'' ''key'' ''get_status'' None
            (close_session ''u1'' None demo_waiting)) =
     calls (close_session ''u1'' None demo_waiting)" by simp
  from a s c show ?thesis unfolding b by (simp add: init_world_def)
qed

subsection \<open>Initializing a session\<close>










section \<open>What each step leaves alone\<close>

text \<open>
  The inbound handler touches nothing but the table of pending requests and the futures;
  the lifecycle operations do not touch the invocations of \<^verbatim>\<open>send_command\<close>; and a step
  of one invocation leaves the frames of the others as they are.
\<close>

lemma pop_and_set_fields [simp]:
  "tasks (pop_and_set r out w) = tasks w"
  "live (pop_and_set r out w) = live w"
  "calls (pop_and_set r out w) = calls w"
  "now (pop_and_set r out w) = now w"
  "next_future (pop_and_set r out w) = next_future w"
  "subscriptions (pop_and_set r out w) = subscriptions w"
  "sessions (pop_and_set r out w) = sessions w"
  by (simp_all add: pop_and_set_def split: option.splits)

lemma handle_messages_fields [simp]:
  "tasks (handle_messages x r msgs w) = tasks w"
  "live (handle_messages x r msgs w) = live w"
  "calls (handle_messages x r msgs w) = calls w"
  "now (handle_messages x r msgs w) = now w"
  "next_future (handle_messages x r msgs w) = next_future w"
  "subscriptions (handle_messages x r msgs w) = subscriptions w"
  "sessions (handle_messages x r msgs w) = sessions w"
  by (induction msgs arbitrary: w) (simp_all split: sum.splits)

lemma on_message_fields [simp]:
  "tasks (on_message x h d w) = tasks w"
  "live (on_message x h d w) = live w"
  "calls (on_message x h d w) = calls w"
  "now (on_message x h d w) = now w"
  "next_future (on_message x h d w) = next_future w"
  "subscriptions (on_message x h d w) = subscriptions w"
  "sessions (on_message x h d w) = sessions w"
  by (cases h; simp split: sum.splits)+

lemma deliver_fields [simp]:
  "tasks (deliver x tok d w) = tasks w"
  "live (deliver x tok d w) = live w"
  "calls (deliver x tok d w) = calls w"
  "now (deliver x tok d w) = now w"
  "next_future (deliver x tok d w) = next_future w"
  "subscriptions (deliver x tok d w) = subscriptions w"
  "sessions (deliver x tok d w) = sessions w"
  by (simp_all add: deliver_def split: option.splits)

lemma close_session_tasks [simp]: "tasks (close_session u co w) = tasks w"
  by (simp add: close_session_def close_transport_def Let_def split: option.splits)

lemma shutdown_tasks_aux:
  "tasks (fold (\<lambda>u. close_session u (f u)) us w) = tasks w"
  by (induction us arbitrary: w) simp_all

lemma shutdown_tasks [simp]: "tasks (shutdown f w) = tasks w"
  by (simp add: shutdown_def shutdown_tasks_aux)

lemma initialize_tasks [simp]: "tasks (snd (initialize x u d co so w)) = tasks w"
  by (simp add: initialize_def Let_def split: sum.splits option.splits)

lemma send_command_begin_other:
  "tid' \<noteq> tid \<Longrightarrow> tasks (send_command_begin x tid' u d k c p w) tid = tasks w tid"
  by (simp add: send_command_begin_def return_task_def unsubscribe_def Let_def
      split: option.splits sum.splits)

lemma subscribe_returns_other:
  "tid' \<noteq> tid \<Longrightarrow> tasks (subscribe_returns x tid' out w) tid = tasks w tid"
  by (auto simp add: subscribe_returns_def store_unsubscribe_def return_task_def Let_def
      split: option.splits frame.splits sum.splits if_splits)

lemma finish_wait_other:
  "tid' \<noteq> tid \<Longrightarrow> tasks (finish_wait tid' v w) tid = tasks w tid"
  by (simp add: finish_wait_def return_task_def pop_pending_def split: future.splits exn.splits)

lemma publish_returns_other:
  "tid' \<noteq> tid \<Longrightarrow> tasks (publish_returns tid' out w) tid = tasks w tid"
  by (simp add: publish_returns_def return_task_def finish_wait_other
      split: option.splits frame.splits)

lemma response_ready_other:
  "tid' \<noteq> tid \<Longrightarrow> tasks (response_ready tid' w) tid = tasks w tid"
  by (simp add: response_ready_def finish_wait_other split: option.splits frame.splits)

lemma deadline_other:
  "tid' \<noteq> tid \<Longrightarrow> tasks (deadline tid' w) tid = tasks w tid"
  by (simp add: deadline_def split: option.splits frame.splits)

lemma timeout_resume_other:
  "tid' \<noteq> tid \<Longrightarrow> tasks (timeout_resume tid' w) tid = tasks w tid"
  by (simp add: timeout_resume_def return_task_def pop_pending_def
      split: option.splits frame.splits)

text \<open>The frames a step of an invocation can leave behind for it.\<close>

lemma send_command_begin_frame:
  "(\<exists>r. tasks (send_command_begin x tid u d k c p w) tid = Some (Returned r)) \<or>
   (\<exists>v first. tasks (send_command_begin x tid u d k c p w) tid = Some (Await_subscribe v first))"
  using send_command_begin_cases [of x tid u d k c p w] by blast

lemma subscribe_returns_frame:
  "tasks (subscribe_returns x tid out w) tid = tasks w tid \<or>
   (\<exists>r. tasks (subscribe_returns x tid out w) tid = Some (Returned r)) \<or>
   (\<exists>v. tasks (subscribe_returns x tid out w) tid = Some (Await_publish v))"
  by (auto simp add: subscribe_returns_def store_unsubscribe_def return_task_def Let_def
      split: option.splits frame.splits sum.splits if_splits)

lemma finish_wait_frame:
  "tasks (finish_wait tid v w) tid = tasks w tid \<or>
   (\<exists>r. tasks (finish_wait tid v w) tid = Some (Returned r)) \<or>
   tasks (finish_wait tid v w) tid = Some Aborted"
  by (simp add: finish_wait_def return_task_def pop_pending_def split: future.splits exn.splits)

lemma publish_returns_frame:
  "tasks (publish_returns tid out w) tid = tasks w tid \<or>
   (\<exists>r. tasks (publish_returns tid out w) tid = Some (Returned r)) \<or>
   tasks (publish_returns tid out w) tid = Some Aborted \<or>
   (\<exists>v. tasks (publish_returns tid out w) tid = Some (Await_response v (now w + 30)))"
  by (simp add: publish_returns_def finish_wait_def return_task_def pop_pending_def
      split: option.splits frame.splits future.splits exn.splits)

lemma response_ready_frame:
  "tasks (response_ready tid w) tid = tasks w tid \<or>
   (\<exists>r. tasks (response_ready tid w) tid = Some (Returned r)) \<or>
   tasks (response_ready tid w) tid = Some Aborted"
  by (simp add: response_ready_def finish_wait_def return_task_def pop_pending_def
      split: option.splits frame.splits future.splits exn.splits)

lemma deadline_frame:
  "tasks (deadline tid w) tid = tasks w tid \<or>
   (\<exists>v. tasks (deadline tid w) tid = Some (Timed_out v))"
  by (simp add: deadline_def split: option.splits frame.splits)

lemma timeout_resume_frame:
  "tasks (timeout_resume tid w) tid = tasks w tid \<or>
   (\<exists>r. tasks (timeout_resume tid w) tid = Some (Returned r))"
  by (simp add: timeout_resume_def return_task_def split: option.splits frame.splits)


section \<open>Waiting for the reply\<close>

subsection \<open>Timeout and reply\<close>



lemma timeout_resume_result:
  assumes "tasks w tid = Some (Timed_out v)"
  shows "tasks (timeout_resume tid w) tid = Some (Returned (Reply_error ''Command timeout''))"
    and "pending_responses (timeout_resume tid w) (l_request_id v) = None"
  using assms by (simp_all add: timeout_resume_def return_task_def pop_pending_def)

lemma deadline_fires:
  assumes "tasks w tid = Some (Await_response v t)"
    and "\<not> fut_done (futures w (l_response_future v))" and "t \<le> now w"
  shows "tasks (deadline tid w) tid = Some (Timed_out v)"
  using assms by (simp add: deadline_def)

lemma deadline_early:
  assumes "tasks w tid = Some (Await_response v t)" and "now w < t"
  shows "deadline tid w = w"
  using assms by (simp add: deadline_def)



lemma response_ready_raised:
  assumes "tasks w tid = Some (Await_response v t)"
    and "futures w (l_response_future v) = Raised e"
  shows "tasks (response_ready tid w) tid =
           Some (Returned (case e of
                             TimeoutError s \<Rightarrow> Reply_error ''Command timeout''
                           | _ \<Rightarrow> except_reply e))"
  using assms
  by (simp add: response_ready_def finish_wait_def return_task_def pop_pending_def
      split: exn.splits)



subsection \<open>The length of the wait\<close>

lemma wait_entered:
  assumes "tasks (step x a w) tid = Some (Await_response v t)"
  shows "tasks w tid = Some (Await_response v t) \<or> t = now w + 30"
proof (cases a)
  case (Do_send tid' u d k c p)
  show ?thesis
  proof (cases "tid' = tid")
    case True
    with assms Do_send send_command_begin_frame [of x tid u d k c p w] show ?thesis
      by (cases "tasks w tid = None") auto
  next
    case False
    with assms Do_send show ?thesis by (simp add: send_command_begin_other split: if_splits)
  qed
next
  case (Subscribe_done tid' out)
  show ?thesis
  proof (cases "tid' = tid")
    case True
    with assms Subscribe_done subscribe_returns_frame [of x tid out w] show ?thesis by auto
  next
    case False
    with assms Subscribe_done show ?thesis by (simp add: subscribe_returns_other)
  qed
next
  case (Publish_done tid' out)
  show ?thesis
  proof (cases "tid' = tid")
    case True
    with assms Publish_done publish_returns_frame [of tid out w] show ?thesis by auto
  next
    case False
    with assms Publish_done show ?thesis by (simp add: publish_returns_other)
  qed
next
  case (Response_ready tid')
  show ?thesis
  proof (cases "tid' = tid")
    case True
    with assms Response_ready response_ready_frame [of tid w] show ?thesis by auto
  next
    case False
    with assms Response_ready show ?thesis by (simp add: response_ready_other)
  qed
next
  case (Deadline tid')
  show ?thesis
  proof (cases "tid' = tid")
    case True
    with assms Deadline deadline_frame [of tid w] show ?thesis by auto
  next
    case False
    with assms Deadline show ?thesis by (simp add: deadline_other)
  qed
next
  case (Resume_timeout tid')
  show ?thesis
  proof (cases "tid' = tid")
    case True
    with assms Resume_timeout timeout_resume_frame [of tid w] show ?thesis by auto
  next
    case False
    with assms Resume_timeout show ?thesis by (simp add: timeout_resume_other)
  qed
qed (use assms in \<open>simp_all split: if_splits\<close>)

text \<open>
  Claim C7, as the code has it. \<^verbatim>\<open>send_command\<close> of the daemon has no timeout
  parameter (an action \<open>Do_send\<close> carries the five arguments of the source and nothing
  else). Every wait that a step of the process enters expires exactly 30 seconds after
  it was entered, whatever the arguments of the send: \<^verbatim>\<open>wait_for(..., timeout=30.0)\<close>.
  Before that time the timer has no effect; from that time on, with the future still
  pending, the send returns the timeout failure.
\<close>

theorem wait_lasts_thirty_seconds:
  "(tasks (step x a w) tid = Some (Await_response v t) \<longrightarrow>
      tasks w tid = Some (Await_response v t) \<or> t = now w + 30) \<and>
   (tasks w tid = Some (Await_publish v) \<and> \<not> fut_done (futures w (l_response_future v)) \<longrightarrow>
      tasks (publish_returns tid None w) tid = Some (Await_response v (now w + 30))) \<and>
   (tasks w tid = Some (Await_response v t) \<and> now w < t \<longrightarrow> deadline tid w = w) \<and>
   (tasks w tid = Some (Await_response v t) \<and> t \<le> now w \<and>
    \<not> fut_done (futures w (l_response_future v)) \<longrightarrow>
      tasks (timeout_resume tid (deadline tid w)) tid =
        Some (Returned (Reply_error ''Command timeout'')))"
proof (intro conjI impI)
  show "tasks w tid = Some (Await_response v t) \<or> t = now w + 30"
    if "tasks (step x a w) tid = Some (Await_response v t)"
    using that by (rule wait_entered)
  show "tasks (publish_returns tid None w) tid = Some (Await_response v (now w + 30))"
    if "tasks w tid = Some (Await_publish v) \<and> \<not> fut_done (futures w (l_response_future v))"
    using that by (simp add: publish_returns_def)
  show "deadline tid w = w" if "tasks w tid = Some (Await_response v t) \<and> now w < t"
    using that by (simp add: deadline_early)
  show "tasks (timeout_resume tid (deadline tid w)) tid =
        Some (Returned (Reply_error ''Command timeout''))"
    if "tasks w tid = Some (Await_response v t) \<and> t \<le> now w \<and>
    \<not> fut_done (futures w (l_response_future v))"
    using that by (simp add: deadline_fires timeout_resume_result)
qed

theorem wait_lasts_thirty_seconds_witness:
  "tasks demo_published 0 = Some (Await_publish demo_locals) \<and>
   now demo_published = 5 \<and>
   tasks (step demo_ext (Publish_done 0 None) demo_published) 0 =
     Some (Await_response demo_locals 35) \<and>
   deadline 0 (run demo_ext [Publish_done 0 None, Advance 29] demo_published) =
     run demo_ext [Publish_done 0 None, Advance 29] demo_published \<and>
   tasks (timeout_resume 0 (deadline 0
       (run demo_ext [Publish_done 0 None, Advance 30] demo_published))) 0 =
     Some (Returned (Reply_error ''Command timeout''))"
proof -
  define w29 where "w29 = run demo_ext [Publish_done 0 None, Advance 29] demo_published"
  define w30 where "w30 = run demo_ext [Publish_done 0 None, Advance 30] demo_published"
  have p: "tasks demo_published 0 = Some (Await_publish demo_locals)"
    and u: "\<not> fut_done (futures demo_published (l_response_future demo_locals))"
    and n: "now demo_published = 5"
    by code_simp+
  from wait_lasts_thirty_seconds [of demo_ext "Publish_done 0 None" demo_published 0 demo_locals 35] p u n
  have a: "tasks (publish_returns 0 None demo_published) 0 = Some (Await_response demo_locals 35)"
    by simp
  then have a': "tasks (step demo_ext (Publish_done 0 None) demo_published) 0 =
     Some (Await_response demo_locals 35)" by simp
  from wait_lasts_thirty_seconds [of demo_ext "Publish_done 0 None" demo_published 0 demo_locals 35] a'
  have "35 = now demo_published + 30 \<or> tasks demo_published 0 = Some (Await_response demo_locals 35)"
    by blast
  have f29: "tasks w29 0 = Some (Await_response demo_locals 35)" and n29: "now w29 < 35"
    unfolding w29_def by code_simp+
  have f30: "tasks w30 0 = Some (Await_response demo_locals 35)" and n30: "35 \<le> now w30"
    and u30: "\<not> fut_done (futures w30 (l_response_future demo_locals))"
    unfolding w30_def by code_simp+
  from wait_lasts_thirty_seconds [of demo_ext "Advance 0" w29 0 demo_locals 35] f29 n29
  have b: "deadline 0 w29 = w29" by blast
  from wait_lasts_thirty_seconds [of demo_ext "Advance 0" w30 0 demo_locals 35] f30 n30 u30
  have c: "tasks (timeout_resume 0 (deadline 0 w30)) 0 =
     Some (Returned (Reply_error ''Command timeout''))" by blast
  from p n a' b c show ?thesis unfolding w29_def w30_def by simp
qed

text \<open>
  Claim C7, as stated, fails: a send cannot be given a timeout of 100 ms. With no reply
  the send of \<open>demo_waiting\<close> has not timed out a tenth of a second after it began to
  wait; it still waits, for the 30 seconds fixed in the source.
\<close>

theorem caller_timeout_counterexample:
  "tasks demo_waiting 0 = Some (Await_response demo_locals 30) \<and>
   now demo_waiting = 0 \<and>
   tasks (run demo_ext [Advance (1/10), Deadline 0, Resume_timeout 0] demo_waiting) 0 =
     Some (Await_response demo_locals 30) \<and>
   tasks (run demo_ext [Advance (1/10), Deadline 0, Resume_timeout 0] demo_waiting) 0 \<noteq>
     Some (Returned (Reply_error ''Command timeout''))"
proof -
  have a: "tasks demo_waiting 0 = Some (Await_response demo_locals 30)"
    and b: "now demo_waiting = 0"
    and c: "tasks (run demo_ext [Advance (1/10), Deadline 0, Resume_timeout 0] demo_waiting) 0 =
     Some (Await_response demo_locals 30)"
    by code_simp+
  from a b c show ?thesis by simp
qed


section \<open>Payloads that do not decode\<close>

lemma pop_and_set_present:
  assumes "pending_responses w rid = Some f" and "\<not> fut_done (futures w f)"
  shows "pending_responses (pop_and_set rid out w) rid = None"
    and "futures (pop_and_set rid out w) f = out"
  using assms by (simp_all add: pop_and_set_def)

lemma handle_messages_decode_raises:
  assumes "find (\<lambda>m. protocol m = RPC_RESPONSE) msgs = Some m"
    and "decode_rpc_response x m = Inl e"
  shows "handle_messages x rid msgs w = pop_and_set rid (Raised e) w"
  using assms by (induction msgs arbitrary: w) (auto split: if_splits)

lemma on_message_decode_raises:
  assumes "parse x d key = Inl e \<or>
           (\<exists>msgs m. parse x d key = Inr msgs \<and>
              find (\<lambda>m. protocol m = RPC_RESPONSE) msgs = Some m \<and>
              decode_rpc_response x m = Inl e)"
  shows "on_message x (On_message rid key) d w = pop_and_set rid (Raised e) w"
  using assms by (auto simp add: handle_messages_decode_raises)

text \<open>
  Claim C10, as the code has it. Let the request be pending with a future that is not
  done, and let a payload arrive at its handler that does not parse, or whose first
  reply-kind message does not decode. The handler removes the entry and sets the future
  to the exception raised, and a send waiting for that future returns a failure whose
  text depends on the class of the exception: the bare message for a
  \<^verbatim>\<open>RoborockException\<close> (line 198), \<^verbatim>\<open>"Command timeout"\<close> for a \<^verbatim>\<open>TimeoutError\<close> (line
  193), and \<^verbatim>\<open>"Unexpected error: "\<close> followed by the message for any other exception
  (line 201).
\<close>

theorem decode_failure_fails_request:
  "pending_responses w rid = Some f \<and> \<not> fut_done (futures w f) \<and>
   (parse x d key = Inl e \<or>
    (\<exists>msgs m. parse x d key = Inr msgs \<and>
       find (\<lambda>m. protocol m = RPC_RESPONSE) msgs = Some m \<and>
       decode_rpc_response x m = Inl e)) \<longrightarrow>
   pending_responses (on_message x (On_message rid key) d w) rid = None \<and>
   futures (on_message x (On_message rid key) d w) f = Raised e \<and>
   (\<forall>tid v t.
      tasks w tid = Some (Await_response v t) \<and> l_request_id v = rid \<and>
      l_response_future v = f \<longrightarrow>
        tasks (response_ready tid (on_message x (On_message rid key) d w)) tid =
          Some (Returned
            (case e of
               RoborockException s \<Rightarrow> Reply_error s
             | TimeoutError s \<Rightarrow> Reply_error ''Command timeout''
             | OtherException s \<Rightarrow> Reply_error (''Unexpected error: '' @ s))))"
proof (intro impI)
  assume h: "pending_responses w rid = Some f \<and> \<not> fut_done (futures w f) \<and>
   (parse x d key = Inl e \<or>
    (\<exists>msgs m. parse x d key = Inr msgs \<and>
       find (\<lambda>m. protocol m = RPC_RESPONSE) msgs = Some m \<and>
       decode_rpc_response x m = Inl e))"
  define w' where "w' = on_message x (On_message rid key) d w"
  from h have w': "w' = pop_and_set rid (Raised e) w"
    unfolding w'_def by (intro on_message_decode_raises) blast
  from h have p: "pending_responses w' rid = None" and r: "futures w' f = Raised e"
    unfolding w' by (simp_all add: pop_and_set_present)
  have "tasks (response_ready tid w') tid =
          Some (Returned
            (case e of
               RoborockException s \<Rightarrow> Reply_error s
             | TimeoutError s \<Rightarrow> Reply_error ''Command timeout''
             | OtherException s \<Rightarrow> Reply_error (''Unexpected error: '' @ s)))"
    if "tasks w tid = Some (Await_response v t) \<and> l_request_id v = rid \<and>
      l_response_future v = f" for tid v t
  proof -
    from that have "tasks w' tid = Some (Await_response v t)" by (simp add: w')
    moreover from that r have "futures w' (l_response_future v) = Raised e" by simp
    ultimately have "tasks (response_ready tid w') tid =
           Some (Returned (case e of
                             TimeoutError s \<Rightarrow> Reply_error ''Command timeout''
                           | _ \<Rightarrow> except_reply e))"
      by (rule response_ready_raised)
    then show ?thesis by (cases e) simp_all
  qed
  with p r show "pending_responses (on_message x (On_message rid key) d w) rid = None \<and>
   futures (on_message x (On_message rid key) d w) f = Raised e \<and>
   (\<forall>tid v t.
      tasks w tid = Some (Await_response v t) \<and> l_request_id v = rid \<and>
      l_response_future v = f \<longrightarrow>
        tasks (response_ready tid (on_message x (On_message rid key) d w)) tid =
          Some (Returned
            (case e of
               RoborockException s \<Rightarrow> Reply_error s
             | TimeoutError s \<Rightarrow> Reply_error ''Command timeout''
             | OtherException s \<Rightarrow> Reply_error (''Unexpected error: '' @ s))))"
    unfolding w'_def by blast
qed

theorem decode_failure_fails_request_witness:
  "pending_responses demo_waiting ''u1:dev1:1'' = Some 0 \<and>
   parse demo_ext ''garbage'' ''key'' = Inl (OtherException ''cannot parse'') \<and>
   pending_responses (on_message demo_ext (On_message ''u1:dev1:1'' ''key'') ''garbage'' demo_waiting)
     ''u1:dev1:1'' = None \<and>
   tasks (response_ready 0
       (on_message demo_ext (On_message ''u1:dev1:1'' ''key'') ''garbage'' demo_waiting)) 0 =
     Some (Returned (Reply_error ''Unexpected error: cannot parse''))"
proof -
  have p: "pending_responses demo_waiting ''u1:dev1:1'' = Some 0"
    and u: "\<not> fut_done (futures demo_waiting 0)"
    and g: "parse demo_ext ''garbage'' ''key'' = Inl (OtherException ''cannot parse'')"
    and f: "tasks demo_waiting 0 = Some (Await_response demo_locals 30)"
    by code_simp+
  have l: "l_request_id demo_locals = ''u1:dev1:1''" "l_response_future demo_locals = 0"
    by (simp_all add: demo_locals_def)
  from decode_failure_fails_request [of demo_waiting "''u1:dev1:1''" 0 demo_ext "''garbage''"
      "''key''" "OtherException ''cannot parse''"] p u g
  have a: "pending_responses
      (on_message demo_ext (On_message ''u1:dev1:1'' ''key'') ''garbage'' demo_waiting)
      ''u1:dev1:1'' = None"
    and b: "\<forall>tid v t.
      tasks demo_waiting tid = Some (Await_response v t) \<and> l_request_id v = ''u1:dev1:1'' \<and>
      l_response_future v = 0 \<longrightarrow>
        tasks (response_ready tid
          (on_message demo_ext (On_message ''u1:dev1:1'' ''key'') ''garbage'' demo_waiting)) tid =
          Some (Returned
            (case OtherException ''cannot parse'' of
               RoborockException s \<Rightarrow> Reply_error s
             | TimeoutError s \<Rightarrow> Reply_error ''Command timeout''
             | OtherException s \<Rightarrow> Reply_error (''Unexpected error: '' @ s)))"
    by blast+
  from b f l have "tasks (response_ready 0
          (on_message demo_ext (On_message ''u1:dev1:1'' ''key'') ''garbage'' demo_waiting)) 0 =
          Some (Returned
            (case OtherException ''cannot parse'' of
               RoborockException s \<Rightarrow> Reply_error s
             | TimeoutError s \<Rightarrow> Reply_error ''Command timeout''
             | OtherException s \<Rightarrow> Reply_error (''Unexpected error: '' @ s)))"
    by blast
  with p g a show ?thesis by simp
qed

text \<open>
  Claim C10, as stated, fails where the decoder raises a \<^verbatim>\<open>RoborockException\<close>: the send
  returns the failure \<^verbatim>\<open>"Invalid payload"\<close>, not an \<^verbatim>\<open>"Unexpected error: ..."\<close> failure.
\<close>

theorem decode_failure_counterexample:
  "tasks demo_waiting 0 = Some (Await_response demo_locals 30) \<and>
   parse demo_ext ''invalid'' ''key'' = Inr [RoborockMessage RPC_RESPONSE ''invalid''] \<and>
   decode_rpc_response demo_ext (RoborockMessage RPC_RESPONSE ''invalid'') =
     Inl (RoborockException ''Invalid payload'') \<and>
   tasks (run demo_ext [Deliver 0 ''invalid'', Response_ready 0] demo_waiting) 0 =
     Some (Returned (Reply_error ''Invalid payload'')) \<and>
   tasks (run demo_ext [Deliver 0 ''invalid'', Response_ready 0] demo_waiting) 0 \<noteq>
     Some (Returned (Reply_error ''Unexpected error: Invalid payload''))"
proof -
  have a: "tasks demo_waiting 0 = Some (Await_response demo_locals 30)"
    and b: "parse demo_ext ''invalid'' ''key'' = Inr [RoborockMessage RPC_RESPONSE ''invalid'']"
    and c: "decode_rpc_response demo_ext (RoborockMessage RPC_RESPONSE ''invalid'') =
     Inl (RoborockException ''Invalid payload'')"
    and d: "tasks (run demo_ext [Deliver 0 ''invalid'', Response_ready 0] demo_waiting) 0 =
     Some (Returned (Reply_error ''Invalid payload''))"
    by code_simp+
  from a b c d show ?thesis by simp
qed


section \<open>What one step changes\<close>

subsection \<open>The table of pending requests\<close>

lemma pop_and_set_pending:
  "pending_responses (pop_and_set r out w) = (pending_responses w)(r := None)"
  by (auto simp add: pop_and_set_def fun_upd_idem split: option.splits)

lemma handle_messages_pending:
  "pending_responses (handle_messages x r msgs w) = pending_responses w \<or>
   pending_responses (handle_messages x r msgs w) = (pending_responses w)(r := None)"
proof (induction msgs arbitrary: w)
  case Nil
  show ?case by simp
next
  case (Cons m msgs)
  show ?case
  proof (cases "protocol m = RPC_RESPONSE")
    case False
    with Cons.IH [of w] show ?thesis by simp
  next
    case True
    show ?thesis
    proof (cases "decode_rpc_response x m")
      case (Inl e)
      with True show ?thesis by (simp add: pop_and_set_pending)
    next
      case (Inr resp)
      with True Cons.IH [of "pop_and_set r (Result resp) w"] show ?thesis
        by (auto simp add: pop_and_set_pending)
    qed
  qed
qed

lemma on_message_pending:
  "pending_responses (on_message x h d w) = pending_responses w \<or>
   pending_responses (on_message x h d w) = (pending_responses w)(handler_request_id h := None)"
  using handle_messages_pending
  by (cases h) (auto simp add: pop_and_set_pending split: sum.splits)

lemma deliver_pending:
  "pending_responses (deliver x tok d w) = pending_responses w \<or>
   (\<exists>s \<in> set (live w). pending_responses (deliver x tok d w) =
      (pending_responses w)(handler_request_id (sub_handler s) := None))"
proof (cases "find (\<lambda>s. sub_token s = tok) (live w)")
  case None
  then show ?thesis by (simp add: deliver_def)
next
  case (Some s)
  then have "s \<in> set (live w)" by (auto simp add: find_Some_iff)
  with Some on_message_pending [of x "sub_handler s" d w] show ?thesis
    by (auto simp add: deliver_def)
qed

lemma unchanged_pending [simp]:
  "pending_responses (close_session u co w) = pending_responses w"
  "pending_responses (snd (initialize x u j co so w)) = pending_responses w"
  "pending_responses (subscribe_returns x tid out w) = pending_responses w"
  "pending_responses (deadline tid w) = pending_responses w"
     apply (simp add: close_session_def close_transport_def Let_def split: option.splits)
    apply (simp add: initialize_def close_session_def close_transport_def Let_def
      split: sum.splits option.splits)
   apply (auto simp add: subscribe_returns_def store_unsubscribe_def return_task_def Let_def
      split: option.splits frame.splits sum.splits if_splits)[1]
  apply (simp add: deadline_def split: option.splits frame.splits)
  done

lemma shutdown_pending_aux:
  "pending_responses (fold (\<lambda>u. close_session u (f u)) us w) = pending_responses w"
  by (induction us arbitrary: w) simp_all

lemma shutdown_pending [simp]: "pending_responses (shutdown f w) = pending_responses w"
  by (simp add: shutdown_def shutdown_pending_aux)

lemma finish_wait_pending:
  "pending_responses (finish_wait tid v w) = pending_responses w \<or>
   pending_responses (finish_wait tid v w) = (pending_responses w)(l_request_id v := None)"
  by (simp add: finish_wait_def return_task_def pop_pending_def split: future.splits exn.splits)

lemma publish_returns_pending:
  "pending_responses (publish_returns tid out w) = pending_responses w \<or>
   (\<exists>v. tasks w tid = Some (Await_publish v) \<and>
      pending_responses (publish_returns tid out w) = (pending_responses w)(l_request_id v := None))"
  using finish_wait_pending
  by (auto simp add: publish_returns_def return_task_def split: option.splits frame.splits)

lemma response_ready_pending:
  "pending_responses (response_ready tid w) = pending_responses w \<or>
   (\<exists>v t. tasks w tid = Some (Await_response v t) \<and>
      pending_responses (response_ready tid w) = (pending_responses w)(l_request_id v := None))"
  using finish_wait_pending
  by (auto simp add: response_ready_def split: option.splits frame.splits)

lemma timeout_resume_pending:
  "pending_responses (timeout_resume tid w) = pending_responses w \<or>
   (\<exists>v. tasks w tid = Some (Timed_out v) \<and>
      pending_responses (timeout_resume tid w) = (pending_responses w)(l_request_id v := None))"
  by (auto simp add: timeout_resume_def return_task_def pop_pending_def
      split: option.splits frame.splits)

lemma send_command_begin_pending:
  "pending_responses (send_command_begin x tid u d k c p w) = pending_responses w \<and>
     request_counter (send_command_begin x tid u d k c p w) = request_counter w \<or>
   pending_responses (send_command_begin x tid u d k c p w) =
     (pending_responses w)(make_request_id u d (request_counter w + 1) \<mapsto> next_future w) \<and>
     request_counter (send_command_begin x tid u d k c p w) = request_counter w + 1"
  by (auto simp add: send_command_begin_def return_task_def unsubscribe_def Let_def
      split: option.splits sum.splits)

lemma upd_None_cases:
  "m' = m(k := None) \<Longrightarrow> m' r = m r \<or> (m' r = None \<and> r = k)"
  by auto

text \<open>How one step changes the table at one identifier.\<close>

lemma removal_cause:
  assumes "tasks w tid = Some fr" and "frame_locals fr = Some v"
    and "\<forall>v' first. fr \<noteq> Await_subscribe v' first"
    and "m' = m(l_request_id v := None)"
  shows "m' rid = m rid \<or>
     (m' rid = None \<and>
      (\<exists>tid fr v. tasks w tid = Some fr \<and> frame_locals fr = Some v \<and> l_request_id v = rid \<and>
         (\<forall>v' first. fr \<noteq> Await_subscribe v' first)))"
proof (cases "rid = l_request_id v")
  case True
  with assms(4) have "m' rid = None" by simp
  moreover from True assms(1-3)
  have "\<exists>tid fr v. tasks w tid = Some fr \<and> frame_locals fr = Some v \<and> l_request_id v = rid \<and>
         (\<forall>v' first. fr \<noteq> Await_subscribe v' first)" by blast
  ultimately show ?thesis by blast
next
  case False
  with assms(4) show ?thesis by simp
qed

lemma pending_step:
  "pending_responses (step x a w) rid = pending_responses w rid \<or>
   (\<exists>u d. rid = make_request_id u d (request_counter w + 1) \<and>
      request_counter (step x a w) = request_counter w + 1) \<or>
   (pending_responses (step x a w) rid = None \<and>
      ((\<exists>s \<in> set (live w). handler_request_id (sub_handler s) = rid) \<or>
       (\<exists>tid fr v. tasks w tid = Some fr \<and> frame_locals fr = Some v \<and> l_request_id v = rid \<and>
          (\<forall>v' first. fr \<noteq> Await_subscribe v' first))))"
proof (cases a)
  case (Do_send tid u d k c p)
  show ?thesis
  proof (cases "tasks w tid = None \<and> rid = make_request_id u d (request_counter w + 1) \<and>
      request_counter (step x a w) = request_counter w + 1")
    case True
    then show ?thesis by blast
  next
    case False
    with Do_send send_command_begin_pending [of x tid u d k c p w]
    have "pending_responses (step x a w) rid = pending_responses w rid"
      by (auto split: if_splits)
    then show ?thesis by simp
  qed
next
  case (Publish_done tid out)
  from publish_returns_pending [of tid out w] show ?thesis
  proof (elim disjE exE conjE)
    fix v
    assume f: "tasks w tid = Some (Await_publish v)"
      and e: "pending_responses (publish_returns tid out w) =
        (pending_responses w)(l_request_id v := None)"
    have "frame_locals (Await_publish v) = Some v"
      "\<forall>v' first. Await_publish v \<noteq> Await_subscribe v' first" by simp_all
    from removal_cause [OF f this e, of rid] Publish_done show ?thesis by simp blast
  qed (simp add: Publish_done)
next
  case (Deliver tok d)
  from deliver_pending [of x tok d w] show ?thesis
  proof (elim disjE bexE)
    fix s
    assume "s \<in> set (live w)"
      and "pending_responses (deliver x tok d w) =
        (pending_responses w)(handler_request_id (sub_handler s) := None)"
    from upd_None_cases [OF this(2), of rid] this(1) Deliver show ?thesis
      by (metis step.simps(7))
  qed (simp add: Deliver)
next
  case (Response_ready tid)
  from response_ready_pending [of tid w] show ?thesis
  proof (elim disjE exE conjE)
    fix v t
    assume f: "tasks w tid = Some (Await_response v t)"
      and e: "pending_responses (response_ready tid w) =
        (pending_responses w)(l_request_id v := None)"
    have "frame_locals (Await_response v t) = Some v"
      "\<forall>v' first. Await_response v t \<noteq> Await_subscribe v' first" by simp_all
    from removal_cause [OF f this e, of rid] Response_ready show ?thesis by simp blast
  qed (simp add: Response_ready)
next
  case (Resume_timeout tid)
  from timeout_resume_pending [of tid w] show ?thesis
  proof (elim disjE exE conjE)
    fix v
    assume f: "tasks w tid = Some (Timed_out v)"
      and e: "pending_responses (timeout_resume tid w) =
        (pending_responses w)(l_request_id v := None)"
    have "frame_locals (Timed_out v) = Some v"
      "\<forall>v' first. Timed_out v \<noteq> Await_subscribe v' first" by simp_all
    from removal_cause [OF f this e, of rid] Resume_timeout show ?thesis by simp blast
  qed (simp add: Resume_timeout)
qed simp_all

subsection \<open>Frames\<close>

lemma subscribe_returns_locals:
  assumes "tasks (subscribe_returns x tid out w) tid' = Some fr'" and "frame_locals fr' = Some v"
  shows "\<exists>fr. tasks w tid' = Some fr \<and> frame_locals fr = Some v \<and>
           (\<forall>first. fr' = Await_subscribe v first \<longrightarrow> fr = fr' \<and> tid' \<noteq> tid)"
proof (cases "tid' = tid")
  case False
  with assms show ?thesis by (simp add: subscribe_returns_other)
next
  case True
  with assms show ?thesis
    by (auto simp add: subscribe_returns_def store_unsubscribe_def return_task_def Let_def
        split: option.splits frame.splits sum.splits if_splits)
qed

lemma finish_wait_locals:
  assumes "tasks (finish_wait tid v0 w) tid' = Some fr'" and "frame_locals fr' = Some v"
  shows "tasks w tid' = Some fr'"
  using assms
  by (auto simp add: finish_wait_def return_task_def pop_pending_def
      split: future.splits exn.splits if_splits)

lemma publish_returns_locals:
  assumes "tasks (publish_returns tid out w) tid' = Some fr'" and "frame_locals fr' = Some v"
  shows "\<exists>fr. tasks w tid' = Some fr \<and> frame_locals fr = Some v \<and>
           (\<forall>first. fr' = Await_subscribe v first \<longrightarrow> fr = fr')"
proof (cases "tid' = tid")
  case False
  with assms show ?thesis by (simp add: publish_returns_other)
next
  case True
  with assms show ?thesis
    by (auto simp add: publish_returns_def finish_wait_def return_task_def pop_pending_def
        split: option.splits frame.splits future.splits exn.splits if_splits)
qed

lemma response_ready_locals:
  assumes "tasks (response_ready tid w) tid' = Some fr'" and "frame_locals fr' = Some v"
  shows "tasks w tid' = Some fr'"
  using assms
  by (auto simp add: response_ready_def finish_wait_def return_task_def pop_pending_def
      split: option.splits frame.splits future.splits exn.splits if_splits)

lemma deadline_locals:
  assumes "tasks (deadline tid w) tid' = Some fr'" and "frame_locals fr' = Some v"
  shows "\<exists>fr. tasks w tid' = Some fr \<and> frame_locals fr = Some v \<and>
           (\<forall>first. fr' = Await_subscribe v first \<longrightarrow> fr = fr')"
  using assms
  by (auto simp add: deadline_def split: option.splits frame.splits if_splits)

lemma timeout_resume_locals:
  assumes "tasks (timeout_resume tid w) tid' = Some fr'" and "frame_locals fr' = Some v"
  shows "tasks w tid' = Some fr'"
  using assms
  by (auto simp add: timeout_resume_def return_task_def pop_pending_def
      split: option.splits frame.splits if_splits)

lemma send_command_begin_locals:
  assumes "tasks (send_command_begin x tid u d k c p w) tid' = Some fr'"
    and "frame_locals fr' = Some v"
  shows "tasks w tid' = Some fr' \<or>
     (tid' = tid \<and> (\<exists>first. fr' = Await_subscribe v first) \<and>
      l_request_id v = make_request_id u d (request_counter w + 1) \<and>
      request_counter (send_command_begin x tid u d k c p w) = request_counter w + 1 \<and>
      l_response_future v = next_future w \<and>
      next_future (send_command_begin x tid u d k c p w) = next_future w + 1 \<and>
      pending_responses (send_command_begin x tid u d k c p w) (l_request_id v) =
        Some (next_future w))"
  using assms
  by (auto simp add: send_command_begin_def return_task_def unsubscribe_def Let_def
      split: option.splits sum.splits if_splits)

text \<open>
  The local variables of a frame after a step are those of the frame before it, unless
  the step began the invocation; and a frame suspended in \<^verbatim>\<open>subscribe\<close> is either new or
  unchanged.
\<close>

lemma frames_step:
  assumes "tasks (step x a w) tid = Some fr'" and "frame_locals fr' = Some v"
  shows "(\<exists>fr. tasks w tid = Some fr \<and> frame_locals fr = Some v \<and>
            (\<forall>first. fr' = Await_subscribe v first \<longrightarrow> fr = fr')) \<or>
         (tasks w tid = None \<and> (\<exists>first. fr' = Await_subscribe v first) \<and>
          (\<exists>u d k c p. a = Do_send tid u d k c p) \<and>
          (\<exists>u d. l_request_id v = make_request_id u d (request_counter w + 1)) \<and>
          request_counter (step x a w) = request_counter w + 1 \<and>
          l_response_future v = next_future w \<and>
          next_future (step x a w) = next_future w + 1 \<and>
          pending_responses (step x a w) (l_request_id v) = Some (next_future w))"
proof (cases a)
  case (Do_send tid' u d k c p)
  show ?thesis
  proof (cases "tasks w tid' = None")
    case False
    with assms Do_send show ?thesis by simp
  next
    case True
    with assms Do_send have "tasks (send_command_begin x tid' u d k c p w) tid = Some fr'"
      by simp
    from send_command_begin_locals [OF this assms(2)] True Do_send assms(2) show ?thesis
      by auto
  qed
next
  case (Subscribe_done tid' out)
  with assms subscribe_returns_locals [of x tid' out w tid fr' v] show ?thesis by auto
next
  case (Publish_done tid' out)
  with assms publish_returns_locals [of tid' out w tid fr' v] show ?thesis by auto
next
  case (Response_ready tid')
  with assms response_ready_locals [of tid' w tid fr' v] show ?thesis by auto
next
  case (Deadline tid')
  with assms deadline_locals [of tid' w tid fr' v] show ?thesis by auto
next
  case (Resume_timeout tid')
  with assms timeout_resume_locals [of tid' w tid fr' v] show ?thesis by auto
qed (use assms in \<open>auto split: if_splits\<close>)

subsection \<open>Registered handlers\<close>

lemma close_session_live_subset: "set (live (close_session u co w)) \<subseteq> set (live w)"
  by (auto simp add: close_session_def close_transport_def Let_def split: option.splits)

lemma shutdown_live_aux:
  "set (live (fold (\<lambda>u. close_session u (f u)) us w)) \<subseteq> set (live w)"
proof (induction us arbitrary: w)
  case Nil
  show ?case by simp
next
  case (Cons u us)
  from Cons.IH [of "close_session u (f u) w"] close_session_live_subset [of u "f u" w]
  show ?case by auto
qed

lemma initialize_live_subset: "set (live (snd (initialize x u j co so w))) \<subseteq> set (live w)"
  using close_session_live_subset [of u co w]
  by (auto simp add: initialize_def Let_def split: sum.splits option.splits)

lemma send_command_begin_live_subset:
  "set (live (send_command_begin x tid u d k c p w)) \<subseteq> set (live w)"
  by (auto simp add: send_command_begin_def return_task_def unsubscribe_def Let_def
      split: option.splits sum.splits)

lemma finish_wait_live [simp]: "live (finish_wait tid v w) = live w"
  by (simp add: finish_wait_def return_task_def pop_pending_def split: future.splits exn.splits)

lemma other_live [simp]:
  "live (publish_returns tid out w) = live w"
  "live (response_ready tid w) = live w"
  "live (deadline tid w) = live w"
  "live (timeout_resume tid w) = live w"
  by (simp_all add: publish_returns_def response_ready_def deadline_def timeout_resume_def
      return_task_def pop_pending_def split: option.splits frame.splits)

lemma subscribe_returns_live:
  assumes "s \<in> set (live (subscribe_returns x tid out w))"
  shows "s \<in> set (live w) \<or>
     (\<exists>v first. tasks w tid = Some (Await_subscribe v first) \<and>
        sub_handler s = On_message (l_request_id v) (l_local_key v) \<and>
        (\<forall>v' first'. tasks (subscribe_returns x tid out w) tid \<noteq> Some (Await_subscribe v' first')))"
  using assms
  by (auto simp add: subscribe_returns_def store_unsubscribe_def return_task_def Let_def
      split: option.splits frame.splits sum.splits if_splits)

lemma live_step:
  assumes "s \<in> set (live (step x a w))"
  shows "s \<in> set (live w) \<or>
     (\<exists>tid v first. tasks w tid = Some (Await_subscribe v first) \<and>
        handler_request_id (sub_handler s) = l_request_id v \<and>
        (\<forall>v' first'. tasks (step x a w) tid \<noteq> Some (Await_subscribe v' first')))"
proof (cases a)
  case (Do_initialize u j co so)
  with assms initialize_live_subset [of x u j co so w] show ?thesis by auto
next
  case (Do_disconnect u co)
  with assms close_session_live_subset [of u co w] show ?thesis by auto
next
  case (Do_shutdown f)
  with assms shutdown_live_aux [of f "map fst (sessions w)" w] show ?thesis
    by (auto simp add: shutdown_def)
next
  case (Do_send tid u d k c p)
  with assms send_command_begin_live_subset [of x tid u d k c p w] show ?thesis
    by (auto split: if_splits)
next
  case (Subscribe_done tid out)
  with assms have "s \<in> set (live (subscribe_returns x tid out w))" by simp
  from subscribe_returns_live [OF this] Subscribe_done show ?thesis
    by (metis handler.sel(1) step.simps(5))
next
  case (Deliver tok d)
  with assms show ?thesis by simp
qed (use assms in \<open>simp_all split: if_splits\<close>)

subsection \<open>A handler or a timeout whose entry is gone\<close>

lemma pop_and_set_absent:
  "pending_responses w r = None \<Longrightarrow> pop_and_set r out w = w"
  by (simp add: pop_and_set_def)

lemma handle_messages_absent:
  "pending_responses w r = None \<Longrightarrow> handle_messages x r msgs w = w"
  by (induction msgs arbitrary: w) (simp_all add: pop_and_set_absent split: sum.splits)

lemma on_message_absent:
  "pending_responses w (handler_request_id h) = None \<Longrightarrow> on_message x h d w = w"
  by (cases h) (simp add: pop_and_set_absent handle_messages_absent split: sum.splits)

lemma pop_pending_absent:
  "pending_responses w r = None \<Longrightarrow> pop_pending r w = w"
  by (simp add: pop_pending_def fun_upd_idem)

subsection \<open>Futures\<close>

lemma pop_and_set_futures:
  "futures (pop_and_set r out w) = futures w \<or>
   (\<exists>fut. pending_responses w r = Some fut \<and> \<not> fut_done (futures w fut) \<and>
      futures (pop_and_set r out w) = (futures w)(fut := out))"
  by (simp add: pop_and_set_def split: option.splits)

lemma pop_and_set_then_absent: "pending_responses (pop_and_set r out w) r = None"
  by (simp add: pop_and_set_pending)

lemma handle_messages_futures:
  "futures (handle_messages x r msgs w) = futures w \<or>
   (\<exists>fut out. pending_responses w r = Some fut \<and> \<not> fut_done (futures w fut) \<and>
      futures (handle_messages x r msgs w) = (futures w)(fut := out))"
proof (induction msgs arbitrary: w)
  case Nil
  show ?case by simp
next
  case (Cons m msgs)
  show ?case
  proof (cases "protocol m = RPC_RESPONSE")
    case False
    with Cons.IH [of w] show ?thesis by simp
  next
    case True
    show ?thesis
    proof (cases "decode_rpc_response x m")
      case (Inl e)
      with True have "handle_messages x r (m # msgs) w = pop_and_set r (Raised e) w" by simp
      with pop_and_set_futures [of r "Raised e" w] show ?thesis by metis
    next
      case (Inr resp)
      have "handle_messages x r msgs (pop_and_set r (Result resp) w) = pop_and_set r (Result resp) w"
        by (rule handle_messages_absent) (rule pop_and_set_then_absent)
      with True Inr have "handle_messages x r (m # msgs) w = pop_and_set r (Result resp) w"
        by simp
      with pop_and_set_futures [of r "Result resp" w] show ?thesis by metis
    qed
  qed
qed

lemma on_message_futures:
  "futures (on_message x h d w) = futures w \<or>
   (\<exists>fut out. pending_responses w (handler_request_id h) = Some fut \<and>
      \<not> fut_done (futures w fut) \<and> futures (on_message x h d w) = (futures w)(fut := out))"
proof (cases h)
  case (On_message r k)
  show ?thesis
  proof (cases "parse x d k")
    case (Inl e)
    with On_message have "on_message x h d w = pop_and_set r (Raised e) w" by simp
    with On_message pop_and_set_futures [of r "Raised e" w] show ?thesis
      by (metis handler.sel(1))
  next
    case (Inr msgs)
    with On_message have "on_message x h d w = handle_messages x r msgs w" by simp
    with On_message handle_messages_futures [of x r msgs w] show ?thesis
      by (metis handler.sel(1))
  qed
qed

lemma deliver_futures:
  "futures (deliver x tok d w) = futures w \<or>
   (\<exists>rid fut out. pending_responses w rid = Some fut \<and> \<not> fut_done (futures w fut) \<and>
      futures (deliver x tok d w) = (futures w)(fut := out))"
proof (cases "find (\<lambda>s. sub_token s = tok) (live w)")
  case None
  then show ?thesis by (simp add: deliver_def)
next
  case (Some s)
  then have "deliver x tok d w = on_message x (sub_handler s) d w" by (simp add: deliver_def)
  with on_message_futures [of x "sub_handler s" d w] show ?thesis by metis
qed

lemma unchanged_futures [simp]:
  "futures (close_session u co w) = futures w"
  "futures (snd (initialize x u j co so w)) = futures w"
  "futures (subscribe_returns x tid out w) = futures w"
  "futures (finish_wait tid v w) = futures w"
  "futures (publish_returns tid out w) = futures w"
  "futures (response_ready tid w) = futures w"
  "futures (timeout_resume tid w) = futures w"
        apply (simp add: close_session_def close_transport_def Let_def split: option.splits)
       apply (simp add: initialize_def close_session_def close_transport_def Let_def
      split: sum.splits option.splits)
      apply (auto simp add: subscribe_returns_def store_unsubscribe_def return_task_def Let_def
      split: option.splits frame.splits sum.splits if_splits)[1]
     apply (simp add: finish_wait_def return_task_def pop_pending_def
      split: future.splits exn.splits)
    apply (simp add: publish_returns_def finish_wait_def return_task_def pop_pending_def
      split: option.splits frame.splits future.splits exn.splits)
   apply (simp add: response_ready_def finish_wait_def return_task_def pop_pending_def
      split: option.splits frame.splits future.splits exn.splits)
  apply (simp add: timeout_resume_def return_task_def pop_pending_def
      split: option.splits frame.splits)
  done

lemma shutdown_futures_aux:
  "futures (fold (\<lambda>u. close_session u (f u)) us w) = futures w"
  by (induction us arbitrary: w) simp_all

lemma shutdown_futures [simp]: "futures (shutdown f w) = futures w"
  by (simp add: shutdown_def shutdown_futures_aux)

lemma deadline_futures:
  "futures (deadline tid w) = futures w \<or>
   (\<exists>v t. tasks w tid = Some (Await_response v t) \<and>
      \<not> fut_done (futures w (l_response_future v)) \<and>
      futures (deadline tid w) = (futures w)(l_response_future v := Cancelled))"
  by (simp add: deadline_def split: option.splits frame.splits)

lemma send_command_begin_futures:
  "futures (send_command_begin x tid u d k c p w) = futures w \<and>
     next_future (send_command_begin x tid u d k c p w) = next_future w \<and>
     pending_responses (send_command_begin x tid u d k c p w) = pending_responses w \<or>
   futures (send_command_begin x tid u d k c p w) = (futures w)(next_future w := Pending) \<and>
     next_future (send_command_begin x tid u d k c p w) = next_future w + 1 \<and>
     (\<exists>r. pending_responses (send_command_begin x tid u d k c p w) =
        (pending_responses w)(r \<mapsto> next_future w))"
  by (auto simp add: send_command_begin_def return_task_def unsubscribe_def Let_def
      split: option.splits sum.splits)

lemma unchanged_next_future [simp]:
  "next_future (close_session u co w) = next_future w"
  "next_future (snd (initialize x u j co so w)) = next_future w"
  "next_future (subscribe_returns x tid out w) = next_future w"
  "next_future (finish_wait tid v w) = next_future w"
  "next_future (publish_returns tid out w) = next_future w"
  "next_future (response_ready tid w) = next_future w"
  "next_future (deadline tid w) = next_future w"
  "next_future (timeout_resume tid w) = next_future w"
         apply (simp add: close_session_def close_transport_def Let_def split: option.splits)
        apply (simp add: initialize_def close_session_def close_transport_def Let_def
      split: sum.splits option.splits)
       apply (auto simp add: subscribe_returns_def store_unsubscribe_def return_task_def Let_def
      split: option.splits frame.splits sum.splits if_splits)[1]
      apply (simp add: finish_wait_def return_task_def pop_pending_def
      split: future.splits exn.splits)
     apply (simp add: publish_returns_def finish_wait_def return_task_def pop_pending_def
      split: option.splits frame.splits future.splits exn.splits)
    apply (simp add: response_ready_def finish_wait_def return_task_def pop_pending_def
      split: option.splits frame.splits future.splits exn.splits)
   apply (simp add: deadline_def split: option.splits frame.splits)
  apply (simp add: timeout_resume_def return_task_def pop_pending_def
      split: option.splits frame.splits)
  done

lemma shutdown_next_future_aux:
  "next_future (fold (\<lambda>u. close_session u (f u)) us w) = next_future w"
  by (induction us arbitrary: w) simp_all

lemma shutdown_next_future [simp]: "next_future (shutdown f w) = next_future w"
  by (simp add: shutdown_def shutdown_next_future_aux)

lemma next_future_step: "next_future w \<le> next_future (step x a w)"
proof (cases a)
  case (Do_send tid u d k c p)
  with send_command_begin_futures [of x tid u d k c p w] show ?thesis by auto
qed simp_all

text \<open>
  A step changes a future only by creating it (pending, at the next free reference) or by
  completing one that is not done and that the table or a suspended invocation refers to.
\<close>

lemma futures_step:
  "futures (step x a w) g = futures w g \<or>
   (g = next_future w \<and> futures (step x a w) g = Pending \<and>
      next_future (step x a w) = next_future w + 1) \<or>
   (\<not> fut_done (futures w g) \<and>
      ((\<exists>rid. pending_responses w rid = Some g) \<or>
       (\<exists>tid fr v. tasks w tid = Some fr \<and> frame_locals fr = Some v \<and>
          l_response_future v = g)))"
proof (cases a)
  case (Do_send tid u d k c p)
  with send_command_begin_futures [of x tid u d k c p w] show ?thesis
    by (auto split: if_splits)
next
  case (Deliver tok d)
  from deliver_futures [of x tok d w] show ?thesis
  proof (elim disjE exE conjE)
    fix rid fut out
    assume "pending_responses w rid = Some fut" "\<not> fut_done (futures w fut)"
      "futures (deliver x tok d w) = (futures w)(fut := out)"
    with Deliver show ?thesis by (cases "g = fut") auto
  qed (simp add: Deliver)
next
  case (Deadline tid)
  from deadline_futures [of tid w] show ?thesis
  proof (elim disjE exE conjE)
    fix v t
    assume f: "tasks w tid = Some (Await_response v t)"
      and n: "\<not> fut_done (futures w (l_response_future v))"
      and e: "futures (deadline tid w) = (futures w)(l_response_future v := Cancelled)"
    show ?thesis
    proof (cases "g = l_response_future v")
      case True
      with f n have "\<not> fut_done (futures w g) \<and>
        (\<exists>tid fr v. tasks w tid = Some fr \<and> frame_locals fr = Some v \<and>
          l_response_future v = g)"
        by (metis frame_locals.simps(3))
      then show ?thesis by blast
    next
      case False
      with e Deadline show ?thesis by simp
    qed
  qed (simp add: Deadline)
qed simp_all

lemma pending_value_step:
  assumes "pending_responses (step x a w) rid = Some g"
  shows "pending_responses w rid = Some g \<or>
         (g = next_future w \<and> next_future (step x a w) = next_future w + 1)"
proof (cases a)
  case (Do_send tid u d k c p)
  with assms send_command_begin_futures [of x tid u d k c p w] show ?thesis
    by (auto split: if_splits)
next
  case (Publish_done tid out)
  with assms publish_returns_pending [of tid out w] show ?thesis
    by (auto split: if_splits)
next
  case (Deliver tok d)
  with assms deliver_pending [of x tok d w] show ?thesis by (auto split: if_splits)
next
  case (Response_ready tid)
  with assms response_ready_pending [of tid w] show ?thesis by (auto split: if_splits)
next
  case (Resume_timeout tid)
  with assms timeout_resume_pending [of tid w] show ?thesis by (auto split: if_splits)
qed (use assms in \<open>simp_all split: if_splits\<close>)


section \<open>Exactly-once removal and resolution\<close>

subsection \<open>An entry is removed at most once\<close>

lemma issued_step:
  assumes "issued w rid"
  shows "issued (step x a w) rid"
proof -
  from assms obtain u d n where r: "rid = make_request_id u d n" and n: "n \<le> request_counter w"
    unfolding issued_def by blast
  from n counter_step_mono [of w x a] have "n \<le> request_counter (step x a w)" by simp
  with r show ?thesis unfolding issued_def by blast
qed

lemma pending_issued_init: "pending_issued init_world"
  by (simp add: pending_issued_def init_world_def)

lemma pending_issued_step:
  assumes "pending_issued w"
  shows "pending_issued (step x a w)"
  unfolding pending_issued_def
proof (intro allI impI)
  fix rid
  assume p: "pending_responses (step x a w) rid \<noteq> None"
  from pending_step [of x a w rid] show "issued (step x a w) rid"
  proof (elim disjE exE conjE)
    assume "pending_responses (step x a w) rid = pending_responses w rid"
    with p assms have "issued w rid" by (simp add: pending_issued_def)
    then show ?thesis by (rule issued_step)
  next
    fix u d
    assume "rid = make_request_id u d (request_counter w + 1)"
      "request_counter (step x a w) = request_counter w + 1"
    then show ?thesis unfolding issued_def by (metis order_refl)
  qed (use p in simp_all)
qed

lemma pending_issued_run: "pending_issued w \<Longrightarrow> pending_issued (run x acts w)"
  unfolding run_def by (induction acts arbitrary: w) (simp_all add: pending_issued_step)

text \<open>An identifier that was issued and is not in the table never enters it again.\<close>

lemma spent_step:
  assumes "issued w rid" and "pending_responses w rid = None"
  shows "pending_responses (step x a w) rid = None"
proof -
  from pending_step [of x a w rid] show ?thesis
  proof (elim disjE exE conjE)
    fix u d
    assume r: "rid = make_request_id u d (request_counter w + 1)"
    from assms(1) obtain u' d' n where "rid = make_request_id u' d' n" "n \<le> request_counter w"
      unfolding issued_def by blast
    with r make_request_id_inj [of u d "request_counter w + 1" u' d' n] show ?thesis by simp
  qed (simp_all add: assms(2))
qed

lemma spent_removals:
  "issued w rid \<Longrightarrow> pending_responses w rid = None \<Longrightarrow> removals x rid acts w = 0"
proof (induction acts arbitrary: w)
  case Nil
  show ?case by simp
next
  case (Cons a acts)
  from Cons.prems have "removals x rid acts (step x a w) = 0"
    by (intro Cons.IH issued_step spent_step)
  with Cons.prems(2) show ?case by (simp add: removed_by_def)
qed

lemma removals_at_most_once:
  "pending_issued w \<Longrightarrow> removals x rid acts w \<le> 1"
proof (induction acts arbitrary: w)
  case Nil
  show ?case by simp
next
  case (Cons a acts)
  show ?case
  proof (cases "removed_by x rid a w")
    case False
    with Cons.IH [OF pending_issued_step [OF Cons.prems]] show ?thesis by simp
  next
    case True
    then have "pending_responses w rid \<noteq> None" "pending_responses (step x a w) rid = None"
      by (simp_all add: removed_by_def)
    with Cons.prems have "issued w rid" by (simp add: pending_issued_def)
    then have "issued (step x a w) rid" by (rule issued_step)
    with \<open>pending_responses (step x a w) rid = None\<close>
    have "removals x rid acts (step x a w) = 0" by (intro spent_removals)
    with True show ?thesis by simp
  qed
qed

subsection \<open>A future is resolved at most once\<close>

lemma futures_allocated_init: "futures_allocated init_world"
  by (simp add: futures_allocated_def init_world_def)

lemma futures_allocated_step:
  assumes "futures_allocated w"
  shows "futures_allocated (step x a w)"
proof -
  from assms have u: "\<And>g. next_future w \<le> g \<Longrightarrow> futures w g = Pending"
    and p: "\<And>rid g. pending_responses w rid = Some g \<Longrightarrow> g < next_future w"
    and t: "\<And>tid fr v. tasks w tid = Some fr \<Longrightarrow> frame_locals fr = Some v \<Longrightarrow>
         l_response_future v < next_future w"
    unfolding futures_allocated_def by blast+
  note m = next_future_step [of w x a]
  have "futures (step x a w) g = Pending" if "next_future (step x a w) \<le> g" for g
  proof -
    from that m have g: "next_future w \<le> g" by simp
    from futures_step [of x a w g] show ?thesis
    proof (elim disjE exE conjE)
      assume "futures (step x a w) g = futures w g"
      with u [OF g] show ?thesis by simp
    next
      fix rid assume "pending_responses w rid = Some g"
      from p [OF this] g show ?thesis by simp
    next
      fix tid fr v
      assume "tasks w tid = Some fr" "frame_locals fr = Some v" "l_response_future v = g"
      with t [of tid fr v] g show ?thesis by simp
    qed simp
  qed
  moreover have "g < next_future (step x a w)"
    if "pending_responses (step x a w) rid = Some g" for rid g
    using pending_value_step [OF that] p [of rid g] m by auto
  moreover have "l_response_future v < next_future (step x a w)"
    if "tasks (step x a w) tid = Some fr" "frame_locals fr = Some v" for tid fr v
    using frames_step [OF that] t [of tid _ v] m by auto
  ultimately show ?thesis unfolding futures_allocated_def by blast
qed

text \<open>A future that was created and is done never changes again.\<close>

lemma settled_step:
  assumes "g < next_future w" and "fut_done (futures w g)"
  shows "futures (step x a w) g = futures w g"
  using futures_step [of x a w g] assms by auto

lemma settled_resolutions:
  "g < next_future w \<Longrightarrow> fut_done (futures w g) \<Longrightarrow> resolutions x g acts w = 0"
proof (induction acts arbitrary: w)
  case Nil
  show ?case by simp
next
  case (Cons a acts)
  from Cons.prems have e: "futures (step x a w) g = futures w g" by (rule settled_step)
  from Cons.prems(1) next_future_step [of w x a] have "g < next_future (step x a w)" by simp
  with e Cons.prems(2) have "resolutions x g acts (step x a w) = 0"
    by (intro Cons.IH) simp_all
  with Cons.prems(2) show ?case by (simp add: resolved_by_def)
qed

lemma resolutions_at_most_once:
  "futures_allocated w \<Longrightarrow> resolutions x g acts w \<le> 1"
proof (induction acts arbitrary: w)
  case Nil
  show ?case by simp
next
  case (Cons a acts)
  note s = futures_allocated_step [OF Cons.prems, of x a]
  show ?case
  proof (cases "resolved_by x g a w")
    case False
    with Cons.IH [OF s] show ?thesis by simp
  next
    case True
    then have d: "fut_done (futures (step x a w) g)" by (simp add: resolved_by_def)
    have "g < next_future (step x a w)"
    proof (rule ccontr)
      assume "\<not> g < next_future (step x a w)"
      with s have "futures (step x a w) g = Pending" by (simp add: futures_allocated_def)
      with d show False by simp
    qed
    with d have "resolutions x g acts (step x a w) = 0" by (intro settled_resolutions)
    with True show ?thesis by simp
  qed
qed

subsection \<open>The two paths\<close>

lemma on_message_done_unchanged:
  assumes "fut_done (futures w g)"
  shows "futures (on_message x h d w) g = futures w g"
  using on_message_futures [of x h d w] assms by auto

lemma pop_and_set_acts:
  "pop_and_set r out w = w \<or> pending_responses (pop_and_set r out w) r = None"
  by (simp add: pop_and_set_pending)

lemma handle_messages_acts:
  "handle_messages x r msgs w = w \<or> pending_responses (handle_messages x r msgs w) r = None"
proof (induction msgs arbitrary: w)
  case Nil
  show ?case by simp
next
  case (Cons m msgs)
  show ?case
  proof (cases "protocol m = RPC_RESPONSE")
    case False
    with Cons.IH [of w] show ?thesis by simp
  next
    case True
    show ?thesis
    proof (cases "decode_rpc_response x m")
      case (Inl e)
      with True show ?thesis by (simp add: pop_and_set_pending)
    next
      case (Inr resp)
      have "handle_messages x r msgs (pop_and_set r (Result resp) w) = pop_and_set r (Result resp) w"
        by (rule handle_messages_absent) (rule pop_and_set_then_absent)
      with True Inr show ?thesis by (simp add: pop_and_set_pending)
    qed
  qed
qed

lemma on_message_acts:
  "on_message x h d w = w \<or>
   pending_responses (on_message x h d w) (handler_request_id h) = None"
  using handle_messages_acts
  by (cases h) (auto simp add: pop_and_set_pending split: sum.splits)

section \<open>Owners and handlers of an identifier\<close>

lemma fresh_not_issued:
  "issued w (make_request_id u d (request_counter w + 1)) \<Longrightarrow> False"
proof -
  assume "issued w (make_request_id u d (request_counter w + 1))"
  then obtain u' d' n where "make_request_id u d (request_counter w + 1) = make_request_id u' d' n"
    and "n \<le> request_counter w" unfolding issued_def by blast
  with make_request_id_inj [of u d "request_counter w + 1" u' d' n] show False by simp
qed

lemma owns_step:
  assumes "owns (step x a w) tid rid"
  shows "owns w tid rid \<or>
     (tasks w tid = None \<and> (\<exists>u d k c p. a = Do_send tid u d k c p) \<and>
      (\<exists>u d. rid = make_request_id u d (request_counter w + 1)) \<and>
      request_counter (step x a w) = request_counter w + 1)"
proof -
  from assms obtain fr' v where f: "tasks (step x a w) tid = Some fr'"
    and l: "frame_locals fr' = Some v" and r: "l_request_id v = rid"
    unfolding owns_def by blast
  from frames_step [OF f l] r show ?thesis unfolding owns_def by blast
qed

lemma await_subscribe_step:
  assumes "tasks (step x a w) tid = Some (Await_subscribe v first)"
  shows "tasks w tid = Some (Await_subscribe v first) \<or>
     (tasks w tid = None \<and>
      (\<exists>u d. l_request_id v = make_request_id u d (request_counter w + 1)) \<and>
      pending_responses (step x a w) (l_request_id v) = Some (next_future w))"
  using frames_step [OF assms, of v] by auto

lemma owns_await_subscribe:
  "tasks w tid = Some (Await_subscribe v first) \<Longrightarrow> owns w tid (l_request_id v)"
  unfolding owns_def by (metis frame_locals.simps(1))

lemma tasks_consistent_init: "tasks_consistent init_world"
  by (simp add: tasks_consistent_def owns_def init_world_def)

lemma tasks_consistent_step:
  assumes "tasks_consistent w"
  shows "tasks_consistent (step x a w)"
proof -
  let ?w = "step x a w"
  from assms have a: "\<And>tid rid. owns w tid rid \<Longrightarrow> issued w rid"
    and b: "\<And>tid tid' rid. owns w tid rid \<Longrightarrow> owns w tid' rid \<Longrightarrow> tid = tid'"
    and c: "\<And>s. s \<in> set (live w) \<Longrightarrow> issued w (handler_request_id (sub_handler s))"
    and d: "\<And>s tid v first. s \<in> set (live w) \<Longrightarrow> tasks w tid = Some (Await_subscribe v first)
          \<Longrightarrow> handler_request_id (sub_handler s) \<noteq> l_request_id v"
    and e: "\<And>tid v first. tasks w tid = Some (Await_subscribe v first)
          \<Longrightarrow> pending_responses w (l_request_id v) \<noteq> None"
    unfolding tasks_consistent_def by blast+
  have a': "issued ?w rid" if "owns ?w tid rid" for tid rid
    using owns_step [OF that]
  proof (elim disjE conjE exE)
    assume "owns w tid rid"
    then show ?thesis by (intro issued_step a)
  next
    fix u d
    assume "rid = make_request_id u d (request_counter w + 1)"
      "request_counter ?w = request_counter w + 1"
    then show ?thesis unfolding issued_def by (metis order_refl)
  qed
  have b': "tid = tid'" if "owns ?w tid rid" "owns ?w tid' rid" for tid tid' rid
    using owns_step [OF that(1)] owns_step [OF that(2)]
  proof (elim disjE conjE exE)
    assume "owns w tid rid" "owns w tid' rid"
    then show ?thesis by (rule b)
  next
    fix u d
    assume "owns w tid rid" "rid = make_request_id u d (request_counter w + 1)"
    with a [of tid rid] fresh_not_issued [of w u d] show ?thesis by simp
  next
    fix u d
    assume "owns w tid' rid" "rid = make_request_id u d (request_counter w + 1)"
    with a [of tid' rid] fresh_not_issued [of w u d] show ?thesis by simp
  next
    fix u d k c p u' d' k' c' p'
    assume "a = Do_send tid u d k c p" "a = Do_send tid' u' d' k' c' p'"
    then show ?thesis by simp
  qed
  have origin: "issued w (handler_request_id (sub_handler s)) \<and>
      (s \<in> set (live w) \<or>
       (\<exists>tid v first. tasks w tid = Some (Await_subscribe v first) \<and>
          handler_request_id (sub_handler s) = l_request_id v \<and>
          (\<forall>v' first'. tasks ?w tid \<noteq> Some (Await_subscribe v' first'))))"
    if "s \<in> set (live ?w)" for s
    using live_step [OF that]
  proof (elim disjE conjE exE)
    assume "s \<in> set (live w)"
    with c show ?thesis by simp
  next
    fix tid v first
    assume t: "tasks w tid = Some (Await_subscribe v first)"
      and h: "handler_request_id (sub_handler s) = l_request_id v"
      and n: "\<forall>v' first'. tasks ?w tid \<noteq> Some (Await_subscribe v' first')"
    from a [OF owns_await_subscribe [OF t]] h
    have "issued w (handler_request_id (sub_handler s))" by simp
    with t h n show ?thesis by blast
  qed
  have c': "issued ?w (handler_request_id (sub_handler s))" if "s \<in> set (live ?w)" for s
    using origin [OF that] by (simp add: issued_step)
  have d': "handler_request_id (sub_handler s) \<noteq> l_request_id v"
    if s: "s \<in> set (live ?w)" and t: "tasks ?w tid = Some (Await_subscribe v first)"
    for s tid v first
    using await_subscribe_step [OF t]
  proof (elim disjE conjE exE)
    fix u d
    assume "l_request_id v = make_request_id u d (request_counter w + 1)"
    with origin [OF s] fresh_not_issued [of w u d] show ?thesis by auto
  next
    assume old: "tasks w tid = Some (Await_subscribe v first)"
    from origin [OF s] show ?thesis
    proof (elim disjE conjE exE)
      assume "s \<in> set (live w)"
      from d [OF this old] show ?thesis .
    next
      fix tid0 v0 first0
      assume t0: "tasks w tid0 = Some (Await_subscribe v0 first0)"
        and h: "handler_request_id (sub_handler s) = l_request_id v0"
        and n: "\<forall>v' first'. tasks ?w tid0 \<noteq> Some (Await_subscribe v' first')"
      from n t have ne: "tid \<noteq> tid0" by auto
      show ?thesis
      proof
        assume "handler_request_id (sub_handler s) = l_request_id v"
        with h have "l_request_id v0 = l_request_id v" by simp
        with owns_await_subscribe [OF t0] owns_await_subscribe [OF old]
        have "tid0 = tid" by (intro b [of tid0 "l_request_id v" tid]) simp_all
        with ne show False by simp
      qed
    qed
  qed
  have e': "pending_responses ?w (l_request_id v) \<noteq> None"
    if t: "tasks ?w tid = Some (Await_subscribe v first)" for tid v first
    using await_subscribe_step [OF t]
  proof (elim disjE conjE exE)
    fix u d
    assume "pending_responses ?w (l_request_id v) = Some (next_future w)"
    then show ?thesis by simp
  next
    assume old: "tasks w tid = Some (Await_subscribe v first)"
    note o = owns_await_subscribe [OF old]
    from pending_step [of x a w "l_request_id v"] show ?thesis
    proof (elim disjE conjE exE bexE)
      assume "pending_responses ?w (l_request_id v) = pending_responses w (l_request_id v)"
      with e [OF old] show ?thesis by simp
    next
      fix u d
      assume "l_request_id v = make_request_id u d (request_counter w + 1)"
      with a [OF o] fresh_not_issued [of w u d] show ?thesis by simp
    next
      fix s
      assume "s \<in> set (live w)" "handler_request_id (sub_handler s) = l_request_id v"
      with d [OF this(1) old] show ?thesis by simp
    next
      fix tid2 fr2 v2
      assume t2: "tasks w tid2 = Some fr2" "frame_locals fr2 = Some v2"
        "l_request_id v2 = l_request_id v"
        and n: "\<forall>v' first. fr2 \<noteq> Await_subscribe v' first"
      from t2 have "owns w tid2 (l_request_id v)" unfolding owns_def by blast
      from b [OF this o] have "tid2 = tid" .
      with t2(1) old have "fr2 = Await_subscribe v first" by simp
      with n show ?thesis by blast
    qed
  qed
  from a' b' c' d' e' show ?thesis unfolding tasks_consistent_def by blast
qed

lemma tasks_consistent_run: "tasks_consistent w \<Longrightarrow> tasks_consistent (run x acts w)"
  unfolding run_def by (induction acts arbitrary: w) (simp_all add: tasks_consistent_step)

lemma unowned_step:
  assumes "unowned w rid"
  shows "unowned (step x a w) rid"
proof -
  from assms have i: "issued w rid" and n: "\<And>tid. \<not> owns w tid rid"
    unfolding unowned_def by blast+
  have "\<not> owns (step x a w) tid rid" for tid
  proof
    assume "owns (step x a w) tid rid"
    from owns_step [OF this] n [of tid] i fresh_not_issued [of w] show False by auto
  qed
  with issued_step [OF i] show ?thesis unfolding unowned_def by blast
qed

lemma unowned_run: "unowned w rid \<Longrightarrow> unowned (run x acts w) rid"
  unfolding run_def by (induction acts arbitrary: w) (simp_all add: unowned_step)

lemma unowned_removal:
  assumes "unowned w rid" and "removed_by x rid a w"
  shows "\<exists>s \<in> set (live w). handler_request_id (sub_handler s) = rid"
proof -
  from assms(1) have i: "issued w rid" and n: "\<And>tid. \<not> owns w tid rid"
    unfolding unowned_def by blast+
  from assms(2) have p: "pending_responses w rid \<noteq> None"
    "pending_responses (step x a w) rid = None" by (simp_all add: removed_by_def)
  from pending_step [of x a w rid] show ?thesis
  proof (elim disjE conjE exE)
    assume "pending_responses (step x a w) rid = pending_responses w rid"
    with p show ?thesis by simp
  next
    fix u d
    assume "rid = make_request_id u d (request_counter w + 1)"
    with i fresh_not_issued [of w u d] show ?thesis by simp
  next
    fix tid fr v
    assume "tasks w tid = Some fr" "frame_locals fr = Some v" "l_request_id v = rid"
    then have "owns w tid rid" unfolding owns_def by blast
    with n show ?thesis by simp
  qed
qed

lemma abandoned_step:
  assumes "abandoned w rid"
  shows "abandoned (step x a w) rid"
proof -
  from assms have u: "unowned w rid" and p: "pending_responses w rid \<noteq> None"
    and l: "\<And>s. s \<in> set (live w) \<Longrightarrow> handler_request_id (sub_handler s) \<noteq> rid"
    unfolding abandoned_def by blast+
  from u have n: "\<And>tid. \<not> owns w tid rid" unfolding unowned_def by blast
  have "pending_responses (step x a w) rid \<noteq> None"
  proof
    assume "pending_responses (step x a w) rid = None"
    with p have "removed_by x rid a w" by (simp add: removed_by_def)
    from unowned_removal [OF u this] l show False by blast
  qed
  moreover have "handler_request_id (sub_handler s) \<noteq> rid" if "s \<in> set (live (step x a w))" for s
    using live_step [OF that]
  proof (elim disjE conjE exE)
    assume "s \<in> set (live w)"
    then show ?thesis by (rule l)
  next
    fix tid v first
    assume t: "tasks w tid = Some (Await_subscribe v first)"
      and h: "handler_request_id (sub_handler s) = l_request_id v"
    from owns_await_subscribe [OF t] n [of tid] h show ?thesis by auto
  qed
  ultimately show ?thesis using unowned_step [OF u] unfolding abandoned_def by blast
qed

lemma abandoned_run: "abandoned w rid \<Longrightarrow> abandoned (run x acts w) rid"
  unfolding run_def by (induction acts arbitrary: w) (simp_all add: abandoned_step)

lemma return_task_unowned:
  assumes "tasks_consistent w" and "tasks w tid = Some fr" and "frame_locals fr = Some v"
  shows "unowned (return_task tid r w) (l_request_id v)"
proof -
  from assms(2,3) have o: "owns w tid (l_request_id v)" unfolding owns_def by blast
  with assms(1) have i: "issued w (l_request_id v)" unfolding tasks_consistent_def by blast
  have "\<not> owns (return_task tid r w) tid' (l_request_id v)" for tid'
  proof
    assume o': "owns (return_task tid r w) tid' (l_request_id v)"
    then have "tid' \<noteq> tid" by (auto simp add: owns_def return_task_def)
    with o' have "owns w tid' (l_request_id v)" by (simp add: owns_def return_task_def)
    with o assms(1) have "tid' = tid" unfolding tasks_consistent_def by blast
    with \<open>tid' \<noteq> tid\<close> show False by simp
  qed
  moreover from i have "issued (return_task tid r w) (l_request_id v)"
    by (simp add: issued_def return_task_def)
  ultimately show ?thesis unfolding unowned_def by blast
qed

lemma subscribe_raises_abandoned:
  assumes "tasks_consistent w" and "tasks w tid = Some (Await_subscribe v first)"
  shows "abandoned (subscribe_returns x tid (Some e) w) (l_request_id v)"
proof -
  have w': "subscribe_returns x tid (Some e) w = return_task tid (except_reply e) w"
    using assms(2) by (simp add: subscribe_returns_def)
  from return_task_unowned [OF assms(1,2), of v "except_reply e"]
  have "unowned (return_task tid (except_reply e) w) (l_request_id v)" by simp
  moreover from assms have "pending_responses w (l_request_id v) \<noteq> None"
    unfolding tasks_consistent_def by blast
  moreover from assms have "\<forall>s \<in> set (live w). handler_request_id (sub_handler s) \<noteq> l_request_id v"
    unfolding tasks_consistent_def by blast
  ultimately show ?thesis unfolding w' abandoned_def by (simp add: return_task_def)
qed

section \<open>The entry of a pending request is taken once\<close>

lemma removals_append:
  "removals x rid (as @ bs) w = removals x rid as w + removals x rid bs (run x as w)"
  by (induction as arbitrary: w) (simp_all add: run_def)

lemma run_append: "run x (as @ bs) w = run x bs (run x as w)"
  by (simp add: run_def)

lemma spent_run:
  "issued w rid \<Longrightarrow> pending_responses w rid = None \<Longrightarrow>
   pending_responses (run x acts w) rid = None"
proof (induction acts arbitrary: w)
  case Nil
  then show ?case by (simp add: run_def)
next
  case (Cons a acts)
  from Cons.prems have "pending_responses (run x acts (step x a w)) rid = None"
    by (intro Cons.IH issued_step spent_step)
  then show ?case by (simp add: run_def)
qed

text \<open>An entry that is gone at the end of a run was removed by one of its steps.\<close>

lemma removals_at_least_once:
  "pending_responses w rid \<noteq> None \<Longrightarrow> pending_responses (run x acts w) rid = None \<Longrightarrow>
   1 \<le> removals x rid acts w"
proof (induction acts arbitrary: w)
  case Nil
  then show ?case by (simp add: run_def)
next
  case (Cons a acts)
  show ?case
  proof (cases "removed_by x rid a w")
    case True
    then show ?thesis by simp
  next
    case False
    with Cons.prems(1) have "pending_responses (step x a w) rid \<noteq> None"
      by (simp add: removed_by_def)
    moreover from Cons.prems(2) have "pending_responses (run x acts (step x a w)) rid = None"
      by (simp add: run_def)
    ultimately have "1 \<le> removals x rid acts (step x a w)" by (rule Cons.IH)
    then show ?thesis by simp
  qed
qed

text \<open>An entry that is there at the end of a run was not removed by any of its steps.\<close>

lemma removals_none_while_present:
  "pending_issued w \<Longrightarrow> pending_responses (run x acts w) rid \<noteq> None \<Longrightarrow>
   removals x rid acts w = 0"
proof (induction acts arbitrary: w)
  case Nil
  show ?case by simp
next
  case (Cons a acts)
  have "\<not> removed_by x rid a w"
  proof
    assume r: "removed_by x rid a w"
    then have "pending_responses w rid \<noteq> None" "pending_responses (step x a w) rid = None"
      by (simp_all add: removed_by_def)
    with Cons.prems(1) have "issued (step x a w) rid"
      by (intro issued_step) (simp add: pending_issued_def)
    with \<open>pending_responses (step x a w) rid = None\<close>
    have "pending_responses (run x acts (step x a w)) rid = None" by (intro spent_run)
    with Cons.prems(2) show False by (simp add: run_def)
  qed
  moreover from Cons.prems have "removals x rid acts (step x a w) = 0"
    by (intro Cons.IH pending_issued_step) (simp_all add: run_def)
  ultimately show ?case by simp
qed

lemma removals_exactly_once:
  assumes "pending_responses (run x pre init_world) rid \<noteq> None"
    and "pending_responses (run x (pre @ acts) init_world) rid = None"
  shows "removals x rid (pre @ acts @ rest) init_world = 1"
proof -
  have "removals x rid (pre @ acts @ rest) init_world \<le> 1"
    by (rule removals_at_most_once) (rule pending_issued_init)
  moreover from assms have "1 \<le> removals x rid acts (run x pre init_world)"
    by (intro removals_at_least_once) (simp_all add: run_append)
  then have "1 \<le> removals x rid (pre @ acts @ rest) init_world"
    by (simp add: removals_append)
  ultimately show ?thesis by simp
qed

lemma abandoned_removals: "abandoned w rid \<Longrightarrow> removals x rid acts w = 0"
proof (induction acts arbitrary: w)
  case Nil
  show ?case by simp
next
  case (Cons a acts)
  from abandoned_step [OF Cons.prems, of x a] have s: "abandoned (step x a w) rid" .
  then have "pending_responses (step x a w) rid \<noteq> None" by (simp add: abandoned_def)
  then have "\<not> removed_by x rid a w" by (simp add: removed_by_def)
  with Cons.IH [OF s] show ?case by simp
qed

lemma subscribe_failure_never_removed:
  assumes "tasks (run x pre init_world) tid = Some (Await_subscribe v first)"
  shows "removals x (l_request_id v) (pre @ Subscribe_done tid (Some e) # acts) init_world = 0"
proof -
  let ?w = "run x pre init_world"
  have c: "tasks_consistent ?w" by (intro tasks_consistent_run tasks_consistent_init)
  with assms have "pending_responses ?w (l_request_id v) \<noteq> None"
    unfolding tasks_consistent_def by blast
  then have "removals x (l_request_id v) pre init_world = 0"
    by (intro removals_none_while_present pending_issued_init)
  moreover from subscribe_raises_abandoned [OF c assms, of x e]
  have a: "abandoned (step x (Subscribe_done tid (Some e)) ?w) (l_request_id v)" by simp
  then have "removals x (l_request_id v) acts (step x (Subscribe_done tid (Some e)) ?w) = 0"
    by (rule abandoned_removals)
  moreover from a have "\<not> removed_by x (l_request_id v) (Subscribe_done tid (Some e)) ?w"
    by (simp add: removed_by_def abandoned_def)
  ultimately show ?thesis by (simp add: removals_append)
qed

text \<open>What the handler does with the first reply-kind message of a payload.\<close>

lemma handle_messages_first_reply:
  assumes "find (\<lambda>m. protocol m = RPC_RESPONSE) msgs = Some m"
  shows "handle_messages x rid msgs w =
     pop_and_set rid (case decode_rpc_response x m of Inl e \<Rightarrow> Raised e | Inr r \<Rightarrow> Result r) w"
  using assms
proof (induction msgs arbitrary: w)
  case Nil
  then show ?case by simp
next
  case (Cons m' msgs)
  show ?case
  proof (cases "protocol m' = RPC_RESPONSE")
    case False
    with Cons show ?thesis by simp
  next
    case True
    with Cons.prems have m: "m' = m" by simp
    show ?thesis
    proof (cases "decode_rpc_response x m")
      case (Inl e)
      with True m show ?thesis by simp
    next
      case (Inr r)
      have "handle_messages x rid msgs (pop_and_set rid (Result r) w) = pop_and_set rid (Result r) w"
        by (rule handle_messages_absent) (rule pop_and_set_then_absent)
      with True m Inr show ?thesis by simp
    qed
  qed
qed

lemma handle_messages_no_reply:
  "find (\<lambda>m. protocol m = RPC_RESPONSE) msgs = None \<Longrightarrow> handle_messages x rid msgs w = w"
  by (induction msgs arbitrary: w) (simp_all split: if_splits)

lemma pop_and_set_takes:
  assumes "pending_responses w rid = Some f"
  shows "pop_and_set rid out w =
     w\<lparr> pending_responses := (pending_responses w)(rid := None),
        futures := (if fut_done (futures w f) then futures w else (futures w)(f := out)) \<rparr>"
  using assms by (simp add: pop_and_set_def)

lemma timeout_resume_takes:
  assumes "tasks w tid = Some (Timed_out v)"
  shows "timeout_resume tid w =
     w\<lparr> pending_responses := (pending_responses w)(l_request_id v := None),
        tasks := (tasks w)(tid \<mapsto> Returned (Reply_error ''Command timeout'')) \<rparr>"
  using assms by (simp add: timeout_resume_def return_task_def pop_pending_def)

text \<open>
  Claim C1, as the code has it. Along every run of the process, each request identifier
  is removed from \<^verbatim>\<open>pending_responses\<close> at most once and each future goes from pending to
  done at most once; an identifier that was in the table and is no longer there was
  removed exactly once, however the run goes on. A path that finds the entry takes it:
  the inbound handler, when the payload does not parse or holds a reply-kind message,
  removes the entry and sets the future unless it is done (to the exception or to the
  decoded reply of the first such message), and the timeout path, when the send resumes,
  removes the entry and returns the timeout failure. A handler whose payload holds no
  reply-kind message changes nothing. The path that comes second finds no entry and is
  a no-op: the handler changes nothing, the \<^verbatim>\<open>pop\<close> changes nothing, and the timed-out
  send just returns its failure; the handler never changes a future that is done. The
  identifier of a send whose \<^verbatim>\<open>subscribe\<close> call raises is in the table and is never
  removed: neither path ever finds it.
\<close>

theorem pending_entry_taken_once:
  "removals x rid acts init_world \<le> 1 \<and>
   resolutions x g acts init_world \<le> 1 \<and>
   (pending_responses (run x pre init_world) rid \<noteq> None \<and>
    pending_responses (run x (pre @ acts) init_world) rid = None \<longrightarrow>
      removals x rid (pre @ acts @ rest) init_world = 1) \<and>
   (pending_responses w rid = Some f \<longrightarrow>
      (\<forall>e. parse x d k = Inl e \<longrightarrow>
         on_message x (On_message rid k) d w =
           w\<lparr> pending_responses := (pending_responses w)(rid := None),
              futures := (if fut_done (futures w f) then futures w
                          else (futures w)(f := Raised e)) \<rparr>) \<and>
      (\<forall>msgs m. parse x d k = Inr msgs \<and>
           find (\<lambda>m. protocol m = RPC_RESPONSE) msgs = Some m \<longrightarrow>
         on_message x (On_message rid k) d w =
           w\<lparr> pending_responses := (pending_responses w)(rid := None),
              futures := (if fut_done (futures w f) then futures w
                          else (futures w)(f := (case decode_rpc_response x m of
                                                   Inl e \<Rightarrow> Raised e
                                                 | Inr r \<Rightarrow> Result r))) \<rparr>)) \<and>
   (\<forall>msgs. parse x d k = Inr msgs \<and> find (\<lambda>m. protocol m = RPC_RESPONSE) msgs = None \<longrightarrow>
      on_message x (On_message rid k) d w = w) \<and>
   (\<forall>v. tasks w tid = Some (Timed_out v) \<longrightarrow>
      timeout_resume tid w =
        w\<lparr> pending_responses := (pending_responses w)(l_request_id v := None),
           tasks := (tasks w)(tid \<mapsto> Returned (Reply_error ''Command timeout'')) \<rparr>) \<and>
   (pending_responses w rid = None \<longrightarrow>
      on_message x (On_message rid k) d w = w \<and> pop_pending rid w = w) \<and>
   (\<forall>v. tasks w tid = Some (Timed_out v) \<and> pending_responses w (l_request_id v) = None \<longrightarrow>
      timeout_resume tid w = return_task tid (Reply_error ''Command timeout'') w) \<and>
   (fut_done (futures w g) \<longrightarrow> futures (on_message x h d w) g = futures w g) \<and>
   (\<forall>v first. tasks (run x pre init_world) tid = Some (Await_subscribe v first) \<longrightarrow>
      removals x (l_request_id v) (pre @ Subscribe_done tid (Some e0) # acts) init_world = 0)"
proof (intro conjI impI allI)
  show "removals x rid acts init_world \<le> 1"
    by (rule removals_at_most_once) (rule pending_issued_init)
  show "resolutions x g acts init_world \<le> 1"
    by (rule resolutions_at_most_once) (rule futures_allocated_init)
  show "removals x rid (pre @ acts @ rest) init_world = 1"
    if "pending_responses (run x pre init_world) rid \<noteq> None \<and>
      pending_responses (run x (pre @ acts) init_world) rid = None"
    using that by (intro removals_exactly_once) blast+
  show "on_message x (On_message rid k) d w =
           w\<lparr> pending_responses := (pending_responses w)(rid := None),
              futures := (if fut_done (futures w f) then futures w
                          else (futures w)(f := Raised e)) \<rparr>"
    if "pending_responses w rid = Some f" "parse x d k = Inl e" for e
    using that by (simp add: pop_and_set_takes)
  show "on_message x (On_message rid k) d w =
           w\<lparr> pending_responses := (pending_responses w)(rid := None),
              futures := (if fut_done (futures w f) then futures w
                          else (futures w)(f := (case decode_rpc_response x m of
                                                   Inl e \<Rightarrow> Raised e
                                                 | Inr r \<Rightarrow> Result r))) \<rparr>"
    if "pending_responses w rid = Some f"
      "parse x d k = Inr msgs \<and> find (\<lambda>m. protocol m = RPC_RESPONSE) msgs = Some m" for msgs m
  proof -
    from that(2) have "on_message x (On_message rid k) d w =
      pop_and_set rid (case decode_rpc_response x m of Inl e \<Rightarrow> Raised e | Inr r \<Rightarrow> Result r) w"
      by (simp add: handle_messages_first_reply)
    with that(1) show ?thesis by (simp add: pop_and_set_takes)
  qed
  show "on_message x (On_message rid k) d w = w"
    if "parse x d k = Inr msgs \<and> find (\<lambda>m. protocol m = RPC_RESPONSE) msgs = None" for msgs
    using that by (simp add: handle_messages_no_reply)
  show "timeout_resume tid w =
        w\<lparr> pending_responses := (pending_responses w)(l_request_id v := None),
           tasks := (tasks w)(tid \<mapsto> Returned (Reply_error ''Command timeout'')) \<rparr>"
    if "tasks w tid = Some (Timed_out v)" for v
    using that by (rule timeout_resume_takes)
  show "on_message x (On_message rid k) d w = w" if "pending_responses w rid = None"
    using that by (intro on_message_absent) simp
  show "pop_pending rid w = w" if "pending_responses w rid = None"
    using that by (rule pop_pending_absent)
  show "timeout_resume tid w = return_task tid (Reply_error ''Command timeout'') w"
    if "tasks w tid = Some (Timed_out v) \<and> pending_responses w (l_request_id v) = None" for v
    using that by (simp add: timeout_resume_def pop_pending_absent)
  show "futures (on_message x h d w) g = futures w g" if "fut_done (futures w g)"
    using that by (rule on_message_done_unchanged)
  show "removals x (l_request_id v) (pre @ Subscribe_done tid (Some e0) # acts) init_world = 0"
    if "tasks (run x pre init_world) tid = Some (Await_subscribe v first)" for v first
    using that by (rule subscribe_failure_never_removed)
qed

theorem pending_entry_taken_once_witness:
  "pending_responses (run demo_ext demo_until_wait init_world) ''u1:dev1:1'' = Some 0 \<and>
   pending_responses (run demo_ext (demo_until_wait @ demo_expiry) init_world) ''u1:dev1:1'' = None \<and>
   removals demo_ext ''u1:dev1:1'' (demo_until_wait @ demo_expiry @ [Deliver 0 ''late''])
     init_world = 1 \<and>
   removals demo_ext ''u1:dev1:1'' demo_race init_world = 1 \<and>
   resolutions demo_ext 0 demo_race init_world = 1 \<and>
   tasks (run demo_ext [Advance 30, Deadline 0] demo_waiting) 0 = Some (Timed_out demo_locals) \<and>
   pending_responses (run demo_ext [Advance 30, Deadline 0] demo_waiting) ''u1:dev1:1'' = Some 0 \<and>
   pending_responses (timeout_resume 0 (run demo_ext [Advance 30, Deadline 0] demo_waiting))
     ''u1:dev1:1'' = None \<and>
   pending_responses demo_waiting ''u1:dev1:1'' = Some 0 \<and>
   pending_responses (on_message demo_ext (On_message ''u1:dev1:1'' ''key'') ''hello'' demo_waiting)
     ''u1:dev1:1'' = None \<and>
   futures (on_message demo_ext (On_message ''u1:dev1:1'' ''key'') ''hello'' demo_waiting) 0 =
     Result (ResponseMessage None (JStr ''hello'')) \<and>
   on_message demo_ext (On_message ''u1:dev1:1'' ''key'') ''again''
       (deliver demo_ext 0 ''hello'' demo_waiting) = deliver demo_ext 0 ''hello'' demo_waiting \<and>
   pop_pending ''u1:dev1:1'' (deliver demo_ext 0 ''hello'' demo_waiting) =
     deliver demo_ext 0 ''hello'' demo_waiting \<and>
   timeout_resume 0 (run demo_ext [Advance 30, Deadline 0, Deliver 0 ''late''] demo_waiting) =
     return_task 0 (Reply_error ''Command timeout'')
       (run demo_ext [Advance 30, Deadline 0, Deliver 0 ''late''] demo_waiting) \<and>
   tasks (run demo_ext demo_subscribing init_world) 0 = Some (Await_subscribe demo_locals True) \<and>
   removals demo_ext ''u1:dev1:1''
     (demo_subscribing @ Subscribe_done 0 (Some (OtherException ''refused'')) # demo_afterwards)
     init_world = 0"
proof -
  define w1 where "w1 = deliver demo_ext 0 ''hello'' demo_waiting"
  define w2 where "w2 = run demo_ext [Advance 30, Deadline 0, Deliver 0 ''late''] demo_waiting"
  define w3 where "w3 = run demo_ext [Advance 30, Deadline 0] demo_waiting"
  note t = pending_entry_taken_once
  have i: "l_request_id demo_locals = ''u1:dev1:1''" by (simp add: demo_locals_def)
  have e: "removals demo_ext ''u1:dev1:1'' demo_race init_world = 1"
    "resolutions demo_ext 0 demo_race init_world = 1"
    by code_simp+
  \<comment> \<open>the timeout path wins\<close>
  have p0: "pending_responses (run demo_ext demo_until_wait init_world) ''u1:dev1:1'' = Some 0"
    and p1: "pending_responses (run demo_ext (demo_until_wait @ demo_expiry) init_world)
      ''u1:dev1:1'' = None"
    by code_simp+
  from t [of demo_ext "''u1:dev1:1''" demo_expiry 0 demo_until_wait "[Deliver 0 ''late'']"] p0 p1
  have a: "removals demo_ext ''u1:dev1:1'' (demo_until_wait @ demo_expiry @ [Deliver 0 ''late''])
     init_world = 1" by simp
  have t3: "tasks w3 0 = Some (Timed_out demo_locals)"
    and p3: "pending_responses w3 ''u1:dev1:1'' = Some 0"
    unfolding w3_def by code_simp+
  from t [where w = w3 and tid = 0] t3
  have "timeout_resume 0 w3 =
      w3\<lparr> pending_responses := (pending_responses w3)(l_request_id demo_locals := None),
           tasks := (tasks w3)(0 \<mapsto> Returned (Reply_error ''Command timeout'')) \<rparr>" by blast
  then have b: "pending_responses (timeout_resume 0 w3) ''u1:dev1:1'' = None" by (simp add: i)
  \<comment> \<open>the handler wins\<close>
  have q: "pending_responses demo_waiting ''u1:dev1:1'' = Some 0"
    and pr: "parse demo_ext ''hello'' ''key'' = Inr [RoborockMessage RPC_RESPONSE ''hello'']"
    and fi: "find (\<lambda>m. protocol m = RPC_RESPONSE) [RoborockMessage RPC_RESPONSE ''hello''] =
      Some (RoborockMessage RPC_RESPONSE ''hello'')"
    and dc: "decode_rpc_response demo_ext (RoborockMessage RPC_RESPONSE ''hello'') =
      Inr (ResponseMessage None (JStr ''hello''))"
    and nd: "\<not> fut_done (futures demo_waiting 0)"
    by code_simp+
  from t [where x = demo_ext and w = demo_waiting and rid = "''u1:dev1:1''" and f = 0
      and d = "''hello''" and k = "''key''"] q pr fi
  have "on_message demo_ext (On_message ''u1:dev1:1'' ''key'') ''hello'' demo_waiting =
      demo_waiting\<lparr> pending_responses := (pending_responses demo_waiting)(''u1:dev1:1'' := None),
        futures := (if fut_done (futures demo_waiting 0) then futures demo_waiting
                    else (futures demo_waiting)(0 :=
                      (case decode_rpc_response demo_ext (RoborockMessage RPC_RESPONSE ''hello'') of
                         Inl e \<Rightarrow> Raised e | Inr r \<Rightarrow> Result r))) \<rparr>"
    by blast
  with dc nd have c: "pending_responses
        (on_message demo_ext (On_message ''u1:dev1:1'' ''key'') ''hello'' demo_waiting)
        ''u1:dev1:1'' = None"
    "futures (on_message demo_ext (On_message ''u1:dev1:1'' ''key'') ''hello'' demo_waiting) 0 =
       Result (ResponseMessage None (JStr ''hello''))"
    by simp_all
  \<comment> \<open>the other path afterwards\<close>
  have p': "pending_responses w1 ''u1:dev1:1'' = None" unfolding w1_def by code_simp
  from t [where x = demo_ext and w = w1 and rid = "''u1:dev1:1''" and d = "''again''"
      and k = "''key''"] p'
  have l: "on_message demo_ext (On_message ''u1:dev1:1'' ''key'') ''again'' w1 = w1"
    "pop_pending ''u1:dev1:1'' w1 = w1" by blast+
  have t2: "tasks w2 0 = Some (Timed_out demo_locals)"
    and p2: "pending_responses w2 (l_request_id demo_locals) = None"
    unfolding w2_def by code_simp+
  from t [where w = w2 and tid = 0] t2 p2
  have m: "timeout_resume 0 w2 = return_task 0 (Reply_error ''Command timeout'') w2" by blast
  \<comment> \<open>a send whose subscribe raises\<close>
  have s: "tasks (run demo_ext demo_subscribing init_world) 0 =
      Some (Await_subscribe demo_locals True)" by code_simp
  from t [where x = demo_ext and pre = demo_subscribing and tid = 0
      and ?e0.0 = "OtherException ''refused''" and acts = demo_afterwards] s
  have n: "removals demo_ext (l_request_id demo_locals)
     (demo_subscribing @ Subscribe_done 0 (Some (OtherException ''refused'')) # demo_afterwards)
     init_world = 0" by blast
  from e p0 p1 a t3 p3 b q c l m s n show ?thesis
    unfolding w1_def w2_def w3_def i by simp
qed

text \<open>
  Claim C1, as stated, fails for a request whose send does not reach its wait: the
  \<^verbatim>\<open>subscribe\<close> call raises, the send returns its failure, and whatever happens
  afterwards (payloads, another send to the device, the timer, a disconnect) no step
  removes the entry: it is removed zero times, not exactly once.
\<close>

theorem pending_entry_never_removed_counterexample:
  "pending_responses (run demo_ext demo_subscribing init_world) ''u1:dev1:1'' = Some 0 \<and>
   tasks (run demo_ext (demo_subscribing @ [Subscribe_done 0 (Some (OtherException ''refused''))])
            init_world) 0 = Some (Returned (Reply_error ''Unexpected error: refused'')) \<and>
   removals demo_ext ''u1:dev1:1''
     (demo_subscribing @ Subscribe_done 0 (Some (OtherException ''refused'')) # demo_afterwards)
     init_world = 0 \<and>
   pending_responses
     (run demo_ext
        (demo_subscribing @ Subscribe_done 0 (Some (OtherException ''refused'')) # demo_afterwards)
        init_world) ''u1:dev1:1'' = Some 0"
  by code_simp


section \<open>A send that fails after registering its request\<close>

text \<open>
  Claim C9, as the code has it. The part of \<^verbatim>\<open>send_command\<close> that runs when
  \<^verbatim>\<open>subscribe\<close> returns or raises never touches \<^verbatim>\<open>pending_responses\<close>, and a send whose
  \<^verbatim>\<open>subscribe\<close> or \<^verbatim>\<open>publish\<close> call raises returns the failure of the \<^verbatim>\<open>except\<close> clauses
  and leaves the table as it is: the registration is not rolled back. In every run of
  the process, the identifier of a send suspended in \<^verbatim>\<open>subscribe\<close> is in the table, and
  if the call raises, it stays there whatever happens afterwards: no handler was
  registered for it. After a \<^verbatim>\<open>publish\<close> that raised, a step can remove the identifier
  only while a handler carrying it is registered with the transport.
\<close>

theorem failed_send_leaves_entry:
  "pending_responses (subscribe_returns x tid out w) = pending_responses w \<and>
   (tasks w tid = Some (Await_subscribe v first) \<longrightarrow>
      tasks (subscribe_returns x tid (Some e) w) tid = Some (Returned (except_reply e))) \<and>
   (tasks w tid = Some (Await_publish v) \<longrightarrow>
      tasks (publish_returns tid (Some e) w) tid = Some (Returned (except_reply e)) \<and>
      pending_responses (publish_returns tid (Some e) w) = pending_responses w) \<and>
   (tasks (run x pre init_world) tid = Some (Await_subscribe v first) \<longrightarrow>
      pending_responses (run x pre init_world) (l_request_id v) \<noteq> None \<and>
      pending_responses
        (run x acts (subscribe_returns x tid (Some e) (run x pre init_world)))
        (l_request_id v) \<noteq> None) \<and>
   (tasks (run x pre init_world) tid = Some (Await_publish v) \<and>
    removed_by x (l_request_id v) a
      (run x acts (publish_returns tid (Some e) (run x pre init_world))) \<longrightarrow>
      (\<exists>s \<in> set (live (run x acts (publish_returns tid (Some e) (run x pre init_world)))).
         handler_request_id (sub_handler s) = l_request_id v))"
proof (intro conjI impI)
  let ?w = "run x pre init_world"
  have c: "tasks_consistent ?w" by (intro tasks_consistent_run tasks_consistent_init)
  show "pending_responses (subscribe_returns x tid out w) = pending_responses w" by simp
  show "tasks (subscribe_returns x tid (Some e) w) tid = Some (Returned (except_reply e))"
    if "tasks w tid = Some (Await_subscribe v first)"
    using that by (simp add: subscribe_returns_def return_task_def)
  show "tasks (publish_returns tid (Some e) w) tid = Some (Returned (except_reply e))"
    "pending_responses (publish_returns tid (Some e) w) = pending_responses w"
    if "tasks w tid = Some (Await_publish v)"
    using that by (simp_all add: publish_returns_def return_task_def)
  show "pending_responses ?w (l_request_id v) \<noteq> None"
    "pending_responses (run x acts (subscribe_returns x tid (Some e) ?w)) (l_request_id v) \<noteq> None"
    if t: "tasks ?w tid = Some (Await_subscribe v first)"
  proof -
    from c t show "pending_responses ?w (l_request_id v) \<noteq> None"
      unfolding tasks_consistent_def by blast
    from subscribe_raises_abandoned [OF c t]
    have "abandoned (run x acts (subscribe_returns x tid (Some e) ?w)) (l_request_id v)"
      by (rule abandoned_run)
    then show "pending_responses (run x acts (subscribe_returns x tid (Some e) ?w))
        (l_request_id v) \<noteq> None"
      unfolding abandoned_def by blast
  qed
  show "\<exists>s \<in> set (live (run x acts (publish_returns tid (Some e) ?w))).
         handler_request_id (sub_handler s) = l_request_id v"
    if h: "tasks ?w tid = Some (Await_publish v) \<and>
      removed_by x (l_request_id v) a (run x acts (publish_returns tid (Some e) ?w))"
  proof -
    from h have t: "tasks ?w tid = Some (Await_publish v)" by blast
    then have "publish_returns tid (Some e) ?w = return_task tid (except_reply e) ?w"
      by (simp add: publish_returns_def)
    with return_task_unowned [OF c t, of v "except_reply e"]
    have "unowned (publish_returns tid (Some e) ?w) (l_request_id v)" by simp
    then have "unowned (run x acts (publish_returns tid (Some e) ?w)) (l_request_id v)"
      by (rule unowned_run)
    with h show ?thesis by (intro unowned_removal) blast+
  qed
qed

theorem failed_send_leaves_entry_witness:
  "tasks (run demo_ext demo_subscribing init_world) 0 = Some (Await_subscribe demo_locals True) \<and>
   tasks (subscribe_returns demo_ext 0 (Some (OtherException ''refused''))
            (run demo_ext demo_subscribing init_world)) 0 =
     Some (Returned (Reply_error ''Unexpected error: refused'')) \<and>
   pending_responses
     (run demo_ext demo_afterwards
        (subscribe_returns demo_ext 0 (Some (OtherException ''refused''))
           (run demo_ext demo_subscribing init_world))) ''u1:dev1:1'' \<noteq> None \<and>
   tasks demo_published 0 = Some (Await_publish demo_locals) \<and>
   tasks (publish_returns 0 (Some (OtherException ''broker gone'')) demo_published) 0 =
     Some (Returned (Reply_error ''Unexpected error: broker gone'')) \<and>
   pending_responses (publish_returns 0 (Some (OtherException ''broker gone'')) demo_published)
     ''u1:dev1:1'' = Some 0 \<and>
   removed_by demo_ext ''u1:dev1:1'' (Deliver 0 ''hello'')
     (publish_returns 0 (Some (OtherException ''broker gone'')) demo_published) \<and>
   (\<exists>s \<in> set (live (publish_returns 0 (Some (OtherException ''broker gone'')) demo_published)).
      handler_request_id (sub_handler s) = ''u1:dev1:1'')"
proof -
  let ?pre = "[Do_initialize ''u1'' demo_creds None None, Advance 5,
        Do_send 0 ''u1'' ''dev1'' ''key'' ''get_status'' None,
        Subscribe_done 0 None]"
  have pub: "demo_published = run demo_ext ?pre init_world" by (simp add: demo_published_def)
  have i: "l_request_id demo_locals = ''u1:dev1:1''" by (simp add: demo_locals_def)
  have s: "tasks (run demo_ext demo_subscribing init_world) 0 =
      Some (Await_subscribe demo_locals True)"
    and p: "tasks demo_published 0 = Some (Await_publish demo_locals)"
    and q: "pending_responses demo_published ''u1:dev1:1'' = Some 0"
    and r: "removed_by demo_ext ''u1:dev1:1'' (Deliver 0 ''hello'')
     (publish_returns 0 (Some (OtherException ''broker gone'')) demo_published)"
    by code_simp+
  note t1 = failed_send_leaves_entry [of demo_ext 0 None "run demo_ext demo_subscribing init_world"
      demo_locals True "OtherException ''refused''" demo_subscribing demo_afterwards "Deliver 0 ''hello''"]
  from t1 s have a: "tasks (subscribe_returns demo_ext 0 (Some (OtherException ''refused''))
            (run demo_ext demo_subscribing init_world)) 0 =
     Some (Returned (except_reply (OtherException ''refused'')))" by blast
  from t1 s have b: "pending_responses
     (run demo_ext demo_afterwards
        (subscribe_returns demo_ext 0 (Some (OtherException ''refused''))
           (run demo_ext demo_subscribing init_world))) (l_request_id demo_locals) \<noteq> None"
    by blast
  note t2 = failed_send_leaves_entry [of demo_ext 0 None demo_published
      demo_locals True "OtherException ''broker gone''" ?pre "[]" "Deliver 0 ''hello''"]
  from t2 p have c: "tasks (publish_returns 0 (Some (OtherException ''broker gone'')) demo_published) 0 =
     Some (Returned (except_reply (OtherException ''broker gone'')))"
    and d: "pending_responses (publish_returns 0 (Some (OtherException ''broker gone'')) demo_published)
      = pending_responses demo_published" by blast+
  from t2 p r have e: "\<exists>s \<in> set (live (publish_returns 0 (Some (OtherException ''broker gone'')) demo_published)).
      handler_request_id (sub_handler s) = ''u1:dev1:1''"
    unfolding pub [symmetric] i by (simp add: run_def)
  from s a b p c d q r e i show ?thesis by simp
qed

text \<open>
  Claim C9, as stated, fails where the failure comes after the handler was registered:
  the \<^verbatim>\<open>publish\<close> call raises, the send returns its failure with the entry still in the
  table, and the next payload on the device's topic reaches the handler, which removes
  the entry.
\<close>

theorem failed_publish_entry_counterexample:
  "tasks demo_published 0 = Some (Await_publish demo_locals) \<and>
   pending_responses demo_published ''u1:dev1:1'' = Some 0 \<and>
   tasks (run demo_ext [Publish_done 0 (Some (OtherException ''broker gone''))] demo_published) 0 =
     Some (Returned (Reply_error ''Unexpected error: broker gone'')) \<and>
   pending_responses
     (run demo_ext [Publish_done 0 (Some (OtherException ''broker gone''))] demo_published)
     ''u1:dev1:1'' = Some 0 \<and>
   pending_responses
     (run demo_ext [Publish_done 0 (Some (OtherException ''broker gone'')), Deliver 0 ''hello'']
        demo_published)
     ''u1:dev1:1'' = None"
  by code_simp


section \<open>One subscription per device\<close>

lemma subscribe_returns_registers:
  assumes "tasks w tid = Some (Await_subscribe v first)"
  shows "live (subscribe_returns x tid None w) =
     live w @ [\<lparr> sub_token = next_token w, sub_session = l_session v,
                 sub_topic = subscribe_topic x (l_rriot v) (l_mqtt_params v) (l_device_id v),
                 sub_handler = On_message (l_request_id v) (l_local_key v) \<rparr>]"
  using assms
  by (simp add: subscribe_returns_def store_unsubscribe_def return_task_def Let_def
      split: option.splits sum.splits)

lemma subscribe_returns_stores:
  assumes "tasks w tid = Some (Await_subscribe v first)"
    and "first \<or> map_of (subscriptions w) (l_user_id v) \<noteq> None"
  shows "map_of (subscriptions_of (subscribe_returns x tid None w) (l_user_id v)) (l_device_id v) =
     Some (next_token w)"
  using assms
  by (auto simp add: subscribe_returns_def store_unsubscribe_def return_task_def Let_def
      subscriptions_of_def AList.update_conv' split: option.splits sum.splits)

lemma send_command_begin_first:
  assumes "map_of (sessions w) u = Some session" and "rriot_data w u = Some cred"
    and "create_mqtt_params x cred = Inr mp" and "map_of (subscriptions_of w u) d = None"
  shows "send_command_begin x tid u d k c p w =
     w\<lparr> request_counter := request_counter w + 1,
        futures := (futures w)(next_future w := Pending),
        next_future := next_future w + 1,
        pending_responses := (pending_responses w)
          (make_request_id u d (request_counter w + 1) \<mapsto> next_future w),
        calls := calls w @ [Subscribe session (subscribe_topic x cred mp d)
          (On_message (make_request_id u d (request_counter w + 1)) k)],
        tasks := (tasks w)(tid \<mapsto> Await_subscribe
          \<lparr> l_user_id = u, l_device_id = d, l_local_key = k, l_command = c, l_params = p,
            l_session = session, l_rriot = cred, l_mqtt_params = mp,
            l_request_id = make_request_id u d (request_counter w + 1),
            l_response_future = next_future w \<rparr> True) \<rparr>"
  using assms by (simp add: send_command_begin_def subscriptions_of_def Let_def)

lemma send_command_begin_later:
  assumes "map_of (sessions w) u = Some session" and "rriot_data w u = Some cred"
    and "create_mqtt_params x cred = Inr mp" and "map_of (subscriptions_of w u) d = Some old"
  shows "send_command_begin x tid u d k c p w =
     w\<lparr> request_counter := request_counter w + 1,
        futures := (futures w)(next_future w := Pending),
        next_future := next_future w + 1,
        pending_responses := (pending_responses w)
          (make_request_id u d (request_counter w + 1) \<mapsto> next_future w),
        live := filter (\<lambda>s. sub_token s \<noteq> old) (live w),
        calls := calls w @ [Unsubscribe old, Subscribe session (subscribe_topic x cred mp d)
          (On_message (make_request_id u d (request_counter w + 1)) k)],
        tasks := (tasks w)(tid \<mapsto> Await_subscribe
          \<lparr> l_user_id = u, l_device_id = d, l_local_key = k, l_command = c, l_params = p,
            l_session = session, l_rriot = cred, l_mqtt_params = mp,
            l_request_id = make_request_id u d (request_counter w + 1),
            l_response_future = next_future w \<rparr> False) \<rparr>"
  using assms by (simp add: send_command_begin_def subscriptions_of_def unsubscribe_def Let_def)

text \<open>
  One send after the other: the first send to a device subscribes and stores the
  callable; a later one calls the stored callable, subscribes again and stores the new
  callable in its place.
\<close>

lemma first_send_subscribes:
  fixes tid :: nat and k c :: string and p :: "json list option"
  assumes "map_of (sessions w) u = Some session" and "rriot_data w u = Some cred"
    and "create_mqtt_params x cred = Inr mp" and "map_of (subscriptions_of w u) d = None"
  defines "w1 \<equiv> send_command_begin x tid u d k c p w"
  defines "w2 \<equiv> subscribe_returns x tid None w1"
  defines "h \<equiv> On_message (make_request_id u d (request_counter w + 1)) k"
  shows "calls w1 = calls w @ [Subscribe session (subscribe_topic x cred mp d) h]"
    and "live w1 = live w"
    and "live w2 = live w @ [\<lparr> sub_token = next_token w, sub_session = session,
           sub_topic = subscribe_topic x cred mp d, sub_handler = h \<rparr>]"
    and "map_of (subscriptions_of w2 u) d = Some (next_token w)"
proof -
  note e = send_command_begin_first [OF assms(1-4), of tid k c p]
  show "calls w1 = calls w @ [Subscribe session (subscribe_topic x cred mp d) h]"
    and "live w1 = live w"
    unfolding w1_def h_def e by simp_all
  obtain v where t: "tasks w1 tid = Some (Await_subscribe v True)"
    and v: "l_user_id v = u" "l_device_id v = d" "l_local_key v = k" "l_session v = session"
      "l_rriot v = cred" "l_mqtt_params v = mp"
      "l_request_id v = make_request_id u d (request_counter w + 1)"
    and n: "next_token w1 = next_token w" "live w1 = live w"
    unfolding w1_def e by simp
  from subscribe_returns_registers [OF t, of x] v n
  show "live w2 = live w @ [\<lparr> sub_token = next_token w, sub_session = session,
           sub_topic = subscribe_topic x cred mp d, sub_handler = h \<rparr>]"
    unfolding w2_def h_def by simp
  from subscribe_returns_stores [OF t, of x] v n
  show "map_of (subscriptions_of w2 u) d = Some (next_token w)"
    unfolding w2_def by simp
qed

lemma later_send_replaces:
  fixes tid :: nat and k c :: string and p :: "json list option"
  assumes "map_of (sessions w) u = Some session" and "rriot_data w u = Some cred"
    and "create_mqtt_params x cred = Inr mp" and "map_of (subscriptions_of w u) d = Some old"
  defines "w1 \<equiv> send_command_begin x tid u d k c p w"
  defines "w2 \<equiv> subscribe_returns x tid None w1"
  defines "h \<equiv> On_message (make_request_id u d (request_counter w + 1)) k"
  shows "calls w1 = calls w @ [Unsubscribe old, Subscribe session (subscribe_topic x cred mp d) h]"
    and "live w1 = filter (\<lambda>s. sub_token s \<noteq> old) (live w)"
    and "live w2 = filter (\<lambda>s. sub_token s \<noteq> old) (live w) @
           [\<lparr> sub_token = next_token w, sub_session = session,
              sub_topic = subscribe_topic x cred mp d, sub_handler = h \<rparr>]"
    and "map_of (subscriptions_of w2 u) d = Some (next_token w)"
proof -
  note e = send_command_begin_later [OF assms(1-4), of tid k c p]
  show "calls w1 = calls w @ [Unsubscribe old, Subscribe session (subscribe_topic x cred mp d) h]"
    and l: "live w1 = filter (\<lambda>s. sub_token s \<noteq> old) (live w)"
    unfolding w1_def h_def e by simp_all
  from assms(4) have s: "map_of (subscriptions w) u \<noteq> None"
    by (auto simp add: subscriptions_of_def split: option.splits)
  obtain v where t: "tasks w1 tid = Some (Await_subscribe v False)"
    and v: "l_user_id v = u" "l_device_id v = d" "l_local_key v = k" "l_session v = session"
      "l_rriot v = cred" "l_mqtt_params v = mp"
      "l_request_id v = make_request_id u d (request_counter w + 1)"
    and n: "next_token w1 = next_token w" "subscriptions w1 = subscriptions w"
    unfolding w1_def e by simp
  from subscribe_returns_registers [OF t, of x] v n l
  show "live w2 = filter (\<lambda>s. sub_token s \<noteq> old) (live w) @
           [\<lparr> sub_token = next_token w, sub_session = session,
              sub_topic = subscribe_topic x cred mp d, sub_handler = h \<rparr>]"
    unfolding w2_def h_def by simp
  from subscribe_returns_stores [OF t, of x] v n s
  show "map_of (subscriptions_of w2 u) d = Some (next_token w)"
    unfolding w2_def by simp
qed

lemma sends_in_turn:
  "map sub_token (live (run demo_ext demo_in_turn init_world)) = [1] \<and>
   subscriptions (run demo_ext demo_in_turn init_world) = [(''u1'', [(''dev1'', 1)])]"
  by code_simp

text \<open>
  Claim C3 at two sends that overlap. The second send to \<open>dev1\<close> begins while the first
  is suspended in \<^verbatim>\<open>await session.subscribe\<close> (line 163): it finds no entry for the
  device (line 162) and subscribes as well. When both calls have returned, the transport
  holds two handlers for the device's topic on the user's session, \<^verbatim>\<open>subscriptions\<close>
  holds the second callable only, and the first was never called: besides \<^verbatim>\<open>start\<close>, the
  calls are the two \<^verbatim>\<open>subscribe\<close> calls and the publishes.
\<close>

theorem overlapping_sends_two_handlers:
  "map (\<lambda>s. (sub_token s, sub_session s, sub_topic s)) (live (run demo_ext demo_overlap init_world)) =
     [(0, 0, ''rr/m/o/uu/acct/dev1''), (1, 0, ''rr/m/o/uu/acct/dev1'')] \<and>
   subscriptions (run demo_ext demo_overlap init_world) = [(''u1'', [(''dev1'', 1)])] \<and>
   filter (\<lambda>c. case c of Publish s t b \<Rightarrow> False | _ \<Rightarrow> True)
     (calls (run demo_ext demo_overlap init_world)) =
     [Start 0,
      Subscribe 0 ''rr/m/o/uu/acct/dev1'' (On_message ''u1:dev1:1'' ''key''),
      Subscribe 0 ''rr/m/o/uu/acct/dev1'' (On_message ''u1:dev1:2'' ''key'')]"
  by code_simp


end
